theory Spec2Isabelle
  imports Main
begin

section \<open>Event utilities of ariakit-core (utils/events.ts)\<close>

text \<open>
  A shallow embedding of the helpers of \<^verbatim>\<open>packages/ariakit-core/src/utils/events.ts\<close>.
  The browser is the host: its objects are modelled by the fields the helpers read, and
  its primitives (timers, listener registration, event dispatch, frame access) by
  functions on an explicit host state.
\<close>

subsection \<open>Strings\<close>

text \<open>
  \<^verbatim>\<open>String.prototype.toLowerCase\<close> on the ASCII letters. The helpers compare its
  result with the ASCII words \<^verbatim>\<open>a\<close>, \<^verbatim>\<open>button\<close> and \<^verbatim>\<open>input\<close> only.
\<close>

definition toLowerCase :: "string \<Rightarrow> string" where
  "toLowerCase s =
     map (\<lambda>c. case map_of (zip ''ABCDEFGHIJKLMNOPQRSTUVWXYZ'' ''abcdefghijklmnopqrstuvwxyz'') c of
                 Some d \<Rightarrow> d
               | None \<Rightarrow> c) s"

subsection \<open>Intent predicates\<close>

text \<open>
  The element behind \<^verbatim>\<open>event.currentTarget\<close>, cast by the source to an anchor, button
  or input: the predicates read its \<^verbatim>\<open>tagName\<close> and its \<^verbatim>\<open>type\<close>, both strings on
  these three interfaces.
\<close>

record element =
  tagName :: string
  type :: string

text \<open>
  The fields of a \<^verbatim>\<open>MouseEvent\<close> that the predicates pick. A \<^verbatim>\<open>null\<close>
  \<^verbatim>\<open>currentTarget\<close> is \<open>None\<close>.
\<close>

record mouse_event =
  currentTarget :: "element option"
  metaKey :: bool
  ctrlKey :: bool
  altKey :: bool

text \<open>
  \<^verbatim>\<open>isApple\<close> is imported from \<^verbatim>\<open>./platform.ts\<close>; the outcome of the call
  \<^verbatim>\<open>isApple()\<close> is the first argument of both predicates, which stands for the
  platform the module runs on. \<^verbatim>\<open>isOpeningInNewTab\<close> reads it once, into
  \<^verbatim>\<open>isAppleDevice\<close>; \<^verbatim>\<open>isDownloading\<close> has it in scope and never calls it.
\<close>

definition isOpeningInNewTab :: "bool \<Rightarrow> mouse_event \<Rightarrow> bool" where
  "isOpeningInNewTab isApple event =
     (case currentTarget event of
        None \<Rightarrow> False
      | Some element \<Rightarrow>
          (let isAppleDevice = isApple in
           if isAppleDevice \<and> \<not> metaKey event then False
           else if \<not> isAppleDevice \<and> \<not> ctrlKey event then False
           else
             (let tagName = toLowerCase (tagName element) in
              if tagName = ''a'' then True
              else if tagName = ''button'' \<and> type element = ''submit'' then True
              else if tagName = ''input'' \<and> type element = ''submit'' then True
              else False)))"

definition isDownloading :: "bool \<Rightarrow> mouse_event \<Rightarrow> bool" where
  "isDownloading isApple event =
     (case currentTarget event of
        None \<Rightarrow> False
      | Some element \<Rightarrow>
          (let tagName = toLowerCase (tagName element) in
           if \<not> altKey event then False
           else if tagName = ''a'' then True
           else if tagName = ''button'' \<and> type element = ''submit'' then True
           else if tagName = ''input'' \<and> type element = ''submit'' then True
           else False))"

text \<open>
  The element gate the spec words as "an anchor, or a submit-type button/input": the
  tag name, whatever its case, and the \<^verbatim>\<open>type\<close> as the element reports it.
\<close>

definition is_link_or_submit :: "element \<Rightarrow> bool" where
  "is_link_or_submit el \<longleftrightarrow>
     toLowerCase (tagName el) = ''a'' \<or>
     (toLowerCase (tagName el) = ''button'' \<or> toLowerCase (tagName el) = ''input'') \<and>
       type el = ''submit''"

subsection \<open>JavaScript values, for \<^verbatim>\<open>getInputType\<close>\<close>

text \<open>
  \<^verbatim>\<open>getInputType\<close> inspects its argument dynamically (\<^verbatim>\<open>in\<close>, truthiness,
  \<^verbatim>\<open>typeof\<close>), so the argument is a JavaScript value. An object is its properties, own
  and inherited, as an association list. A number is an integer or \<^verbatim>\<open>NaN\<close>: the
  helpers only test a number for truthiness and hand it on.
\<close>

datatype number = Num int | NaN

datatype js_value =
    JUndefined
  | JNull
  | JBool bool
  | JNumber number
  | JString string
  | JObject "(string \<times> js_value) list"

datatype js_error = TypeError | SecurityError

fun truthy_number :: "number \<Rightarrow> bool" where
  "truthy_number (Num n) = (n \<noteq> 0)"
| "truthy_number NaN = False"

text \<open>\<^verbatim>\<open>ToBoolean\<close>.\<close>

fun truthy :: "js_value \<Rightarrow> bool" where
  "truthy JUndefined = False"
| "truthy JNull = False"
| "truthy (JBool b) = b"
| "truthy (JNumber n) = truthy_number n"
| "truthy (JString s) = (s \<noteq> [])"
| "truthy (JObject ps) = True"

text \<open>
  \<^verbatim>\<open>key in v\<close>: a \<^verbatim>\<open>TypeError\<close> when \<open>v\<close> is not an object.
\<close>

fun js_in :: "string \<Rightarrow> js_value \<Rightarrow> js_error + bool" where
  "js_in key (JObject ps) = Inr (key \<in> fst ` set ps)"
| "js_in key v = Inl TypeError"

text \<open>
  \<^verbatim>\<open>v.key\<close>, used by the source only after \<^verbatim>\<open>key in v\<close> has answered: an absent
  property reads as \<^verbatim>\<open>undefined\<close>, and so does a property of a primitive.
\<close>

fun js_get :: "js_value \<Rightarrow> string \<Rightarrow> js_value" where
  "js_get (JObject ps) key = (case map_of ps key of Some v \<Rightarrow> v | None \<Rightarrow> JUndefined)"
| "js_get v key = JUndefined"

fun is_string :: "js_value \<Rightarrow> bool" where
  "is_string (JString s) = True"
| "is_string v = False"

text \<open>A bare \<^verbatim>\<open>return;\<close> returns \<^verbatim>\<open>undefined\<close>; a throw is \<open>Inl\<close>.\<close>

definition getInputType :: "js_value \<Rightarrow> js_error + js_value" where
  "getInputType event =
     (case js_in ''nativeEvent'' event of
        Inl e \<Rightarrow> Inl e
      | Inr wrapped \<Rightarrow>
          (let nativeEvent = (if wrapped then js_get event ''nativeEvent'' else event) in
           if \<not> truthy nativeEvent then Inr JUndefined
           else
             (case js_in ''inputType'' nativeEvent of
                Inl e \<Rightarrow> Inl e
              | Inr present \<Rightarrow>
                  if \<not> present then Inr JUndefined
                  else if \<not> is_string (js_get nativeEvent ''inputType'') then Inr JUndefined
                  else Inr (js_get nativeEvent ''inputType''))))"

text \<open>
  The inputs the signature \<^verbatim>\<open>Event | { nativeEvent: Event }\<close> admits, with the
  \<^verbatim>\<open>null\<close> or \<^verbatim>\<open>undefined\<close> \<^verbatim>\<open>nativeEvent\<close> the source guards against: an object
  whose \<^verbatim>\<open>nativeEvent\<close> property, when it has one, is an object, \<^verbatim>\<open>null\<close> or
  \<^verbatim>\<open>undefined\<close>.
\<close>

fun is_event_object :: "js_value \<Rightarrow> bool" where
  "is_event_object (JObject ps) = True"
| "is_event_object v = False"

fun event_or_wrapper :: "js_value \<Rightarrow> bool" where
  "event_or_wrapper (JObject ps) =
     (case map_of ps ''nativeEvent'' of
        None \<Rightarrow> True
      | Some v \<Rightarrow> is_event_object v \<or> v = JNull \<or> v = JUndefined)"
| "event_or_wrapper v = False"

text \<open>The event that is inspected: the wrapped one when there is a wrapper.\<close>

definition native_of :: "js_value \<Rightarrow> js_value" where
  "native_of event =
     (case event of
        JObject ps \<Rightarrow> (case map_of ps ''nativeEvent'' of None \<Rightarrow> event | Some v \<Rightarrow> v)
      | _ \<Rightarrow> event)"

subsection \<open>The host: timers, listeners and the event loop\<close>

text \<open>
  \<^verbatim>\<open>queueBeforeEvent\<close> registers closures with the browser and returns one. The host
  state holds what the browser keeps: the pending \<^verbatim>\<open>setTimeout\<close> timers, the pending
  \<^verbatim>\<open>requestAnimationFrame\<close> callbacks, the registered listeners, and the counters that
  number timers and frames. An \<^verbatim>\<open>Element\<close> is known by its identity.
\<close>

type_synonym node = nat

text \<open>
  The functions the module creates are data. A \<open>Callback\<close> is a function of the caller,
  \<^verbatim>\<open>() => void\<close>, known by its identity: the model records each of its invocations
  in \<open>ran\<close>. \<open>OnTimer\<close> and \<open>CallSync\<close> are the two arrow functions of one call of
  \<^verbatim>\<open>queueBeforeEvent\<close>; they read the variables of that call, so they carry the index
  of its activation record in \<open>scopes\<close>. A \<open>canceller\<close> is the arrow function that
  \<^verbatim>\<open>createTimer\<close> returns, closed over \<^verbatim>\<open>timerId\<close>.
\<close>

datatype canceller =
    ClearTimeout nat
  | CancelAnimationFrame nat

datatype closure =
    Callback nat
  | OnTimer nat
  | CallSync nat

record listener =
  l_target :: node
  l_type :: string
  l_callback :: closure
  l_capture :: bool
  l_once :: bool

text \<open>
  The variables of one call of \<^verbatim>\<open>queueBeforeEvent\<close> that its closures read:
  \<^verbatim>\<open>element\<close>, \<^verbatim>\<open>type\<close>, \<^verbatim>\<open>callback\<close> and \<^verbatim>\<open>cancelTimer\<close>
  (\<^verbatim>\<open>callSync\<close> is \<open>CallSync\<close> of the record's own index).
\<close>

record scope =
  q_element :: node
  q_type :: string
  q_callback :: nat
  q_cancelTimer :: canceller

record host =
  timeouts :: "(nat \<times> closure \<times> number) list"
  animationFrames :: "(nat \<times> closure) list"
  listeners :: "listener list"
  nextTimeout :: nat
  nextFrame :: nat
  scopes :: "scope list"
  ran :: "nat list"

text \<open>
  \<^verbatim>\<open>setTimeout(callback, delay)\<close> and \<^verbatim>\<open>requestAnimationFrame(callback)\<close> return
  a fresh id; \<^verbatim>\<open>clearTimeout(id)\<close> and \<^verbatim>\<open>cancelAnimationFrame(id)\<close> drop the entry
  of that id and do nothing when there is none.
\<close>

definition setTimeout :: "closure \<Rightarrow> number \<Rightarrow> host \<Rightarrow> nat \<times> host" where
  "setTimeout callback delay h =
     (nextTimeout h,
      h\<lparr>timeouts := timeouts h @ [(nextTimeout h, callback, delay)],
        nextTimeout := Suc (nextTimeout h)\<rparr>)"

definition clearTimeout :: "nat \<Rightarrow> host \<Rightarrow> host" where
  "clearTimeout timerId h = h\<lparr>timeouts := filter (\<lambda>e. fst e \<noteq> timerId) (timeouts h)\<rparr>"

definition requestAnimationFrame :: "closure \<Rightarrow> host \<Rightarrow> nat \<times> host" where
  "requestAnimationFrame callback h =
     (nextFrame h,
      h\<lparr>animationFrames := animationFrames h @ [(nextFrame h, callback)],
        nextFrame := Suc (nextFrame h)\<rparr>)"

definition cancelAnimationFrame :: "nat \<Rightarrow> host \<Rightarrow> host" where
  "cancelAnimationFrame timerId h =
     h\<lparr>animationFrames := filter (\<lambda>e. fst e \<noteq> timerId) (animationFrames h)\<rparr>"

text \<open>
  A listener is known to a target by its type, its callback and its capture flag:
  \<^verbatim>\<open>addEventListener\<close> ignores a second registration of the same three, and
  \<^verbatim>\<open>removeEventListener\<close> removes the registration that has them.
\<close>

definition listens :: "node \<Rightarrow> string \<Rightarrow> closure \<Rightarrow> bool \<Rightarrow> listener \<Rightarrow> bool" where
  "listens target ty callback capture l \<longleftrightarrow>
     l_target l = target \<and> l_type l = ty \<and> l_callback l = callback \<and> l_capture l = capture"

definition registered :: "host \<Rightarrow> node \<Rightarrow> string \<Rightarrow> closure \<Rightarrow> bool \<Rightarrow> bool" where
  "registered h target ty callback capture \<longleftrightarrow>
     list_ex (listens target ty callback capture) (listeners h)"

definition addEventListener :: "listener \<Rightarrow> host \<Rightarrow> host" where
  "addEventListener l h =
     (if registered h (l_target l) (l_type l) (l_callback l) (l_capture l) then h
      else h\<lparr>listeners := listeners h @ [l]\<rparr>)"

definition removeEventListener :: "node \<Rightarrow> string \<Rightarrow> closure \<Rightarrow> bool \<Rightarrow> host \<Rightarrow> host" where
  "removeEventListener target ty callback capture h =
     h\<lparr>listeners := filter (\<lambda>l. \<not> listens target ty callback capture l) (listeners h)\<rparr>"

subsection \<open>Calling the closures\<close>

definition run_callback :: "nat \<Rightarrow> host \<Rightarrow> host" where
  "run_callback c h = h\<lparr>ran := ran h @ [c]\<rparr>"

text \<open>
  \<^verbatim>\<open>() => clearTimeout(timerId)\<close> and \<^verbatim>\<open>() => cancelAnimationFrame(timerId)\<close>.
\<close>

fun cancel :: "canceller \<Rightarrow> host \<Rightarrow> host" where
  "cancel (ClearTimeout timerId) h = clearTimeout timerId h"
| "cancel (CancelAnimationFrame timerId) h = cancelAnimationFrame timerId h"

text \<open>
  The timer callback is
  \<^verbatim>\<open>() => { element.removeEventListener(type, callSync, true); callback(); }\<close>
  and \<^verbatim>\<open>callSync\<close> is \<^verbatim>\<open>() => { cancelTimer(); callback(); }\<close>. A closure is made
  together with its activation record, so the last branch is never taken in a host
  that satisfies \<open>wf_host\<close> below.
\<close>

fun call :: "closure \<Rightarrow> host \<Rightarrow> host" where
  "call (Callback c) h = run_callback c h"
| "call (OnTimer s) h =
     (if s < length (scopes h)
      then run_callback (q_callback (scopes h ! s))
             (removeEventListener (q_element (scopes h ! s)) (q_type (scopes h ! s)) (CallSync s) True h)
      else h)"
| "call (CallSync s) h =
     (if s < length (scopes h)
      then run_callback (q_callback (scopes h ! s)) (cancel (q_cancelTimer (scopes h ! s)) h)
      else h)"

subsection \<open>\<^verbatim>\<open>queueBeforeEvent\<close>\<close>

text \<open>
  \<^verbatim>\<open>createTimer\<close> tests \<^verbatim>\<open>if (timeout)\<close>: an absent \<^verbatim>\<open>timeout\<close> is
  \<^verbatim>\<open>undefined\<close>, which is falsy, and so are the numbers \<^verbatim>\<open>0\<close> and \<^verbatim>\<open>NaN\<close>.
\<close>

definition createTimer :: "number option \<Rightarrow> closure \<Rightarrow> host \<Rightarrow> canceller \<times> host" where
  "createTimer timeout callback h =
     (case timeout of
        Some t \<Rightarrow>
          if truthy_number t
          then (let (timerId, h') = setTimeout callback t h in (ClearTimeout timerId, h'))
          else (let (timerId, h') = requestAnimationFrame callback h in (CancelAnimationFrame timerId, h'))
      | None \<Rightarrow>
          (let (timerId, h') = requestAnimationFrame callback h in (CancelAnimationFrame timerId, h')))"

text \<open>
  The call allocates its activation record at the next index of \<open>scopes\<close>; the record is
  stored once \<^verbatim>\<open>cancelTimer\<close> is known. No closure runs before the function returns.
\<close>

definition queueBeforeEvent ::
  "node \<Rightarrow> string \<Rightarrow> nat \<Rightarrow> number option \<Rightarrow> host \<Rightarrow> canceller \<times> host" where
  "queueBeforeEvent element ty callback timeout h =
     (let s = length (scopes h);
          (cancelTimer, h1) = createTimer timeout (OnTimer s) h;
          callSync = CallSync s;
          h2 = addEventListener
                 \<lparr>l_target = element, l_type = ty, l_callback = callSync,
                  l_capture = True, l_once = True\<rparr> h1
      in (cancelTimer,
          h2\<lparr>scopes := scopes h2 @
                [\<lparr>q_element = element, q_type = ty, q_callback = callback,
                  q_cancelTimer = cancelTimer\<rparr>]\<rparr>))"

subsection \<open>What the host does later\<close>

text \<open>
  A pending timer or frame callback runs at most once: its entry is dropped and the
  callback is called. Firing an id that is not pending does nothing.
\<close>

definition fireTimeout :: "nat \<Rightarrow> host \<Rightarrow> host" where
  "fireTimeout timerId h =
     (case find (\<lambda>e. fst e = timerId) (timeouts h) of
        None \<Rightarrow> h
      | Some e \<Rightarrow> call (fst (snd e)) (clearTimeout timerId h))"

definition fireFrame :: "nat \<Rightarrow> host \<Rightarrow> host" where
  "fireFrame timerId h =
     (case find (\<lambda>e. fst e = timerId) (animationFrames h) of
        None \<Rightarrow> h
      | Some e \<Rightarrow> call (snd e) (cancelAnimationFrame timerId h))"

text \<open>
  An event of type \<open>ty\<close> reaching \<open>target\<close>: the listeners registered there for that type
  when the dispatch starts are invoked in the order of their registration. One that was
  removed in the meantime is skipped, and a \<^verbatim>\<open>once\<close> listener is removed before it is
  called.
\<close>

fun invoke_listeners :: "listener list \<Rightarrow> host \<Rightarrow> host" where
  "invoke_listeners [] h = h"
| "invoke_listeners (l # ls) h =
     (if registered h (l_target l) (l_type l) (l_callback l) (l_capture l)
      then invoke_listeners ls
             (call (l_callback l)
                (if l_once l
                 then removeEventListener (l_target l) (l_type l) (l_callback l) (l_capture l) h
                 else h))
      else invoke_listeners ls h)"

definition dispatchEvent :: "node \<Rightarrow> string \<Rightarrow> host \<Rightarrow> host" where
  "dispatchEvent target ty h =
     invoke_listeners (filter (\<lambda>l. l_target l = target \<and> l_type l = ty) (listeners h)) h"

datatype step =
    FireTimeout nat
  | FireFrame nat
  | Dispatch node string

fun do_step :: "step \<Rightarrow> host \<Rightarrow> host" where
  "do_step (FireTimeout timerId) h = fireTimeout timerId h"
| "do_step (FireFrame timerId) h = fireFrame timerId h"
| "do_step (Dispatch target ty) h = dispatchEvent target ty h"

fun exec :: "step list \<Rightarrow> host \<Rightarrow> host" where
  "exec [] h = h"
| "exec (x # xs) h = exec xs (do_step x h)"

text \<open>The host step in which the timer behind a cancellation handle fires.\<close>

fun timer_step :: "canceller \<Rightarrow> step" where
  "timer_step (ClearTimeout timerId) = FireTimeout timerId"
| "timer_step (CancelAnimationFrame timerId) = FireFrame timerId"

subsection \<open>Well-formed hosts\<close>

text \<open>
  Ids and activation records are handed out in order, so everything the host holds
  refers to ids below the counters and to records that exist.
\<close>

fun valid_closure :: "host \<Rightarrow> closure \<Rightarrow> bool" where
  "valid_closure h (Callback c) = True"
| "valid_closure h (OnTimer s) = (s < length (scopes h))"
| "valid_closure h (CallSync s) = (s < length (scopes h))"

fun valid_canceller :: "host \<Rightarrow> canceller \<Rightarrow> bool" where
  "valid_canceller h (ClearTimeout timerId) = (timerId < nextTimeout h)"
| "valid_canceller h (CancelAnimationFrame timerId) = (timerId < nextFrame h)"

definition wf_host :: "host \<Rightarrow> bool" where
  "wf_host h \<longleftrightarrow>
     list_all (\<lambda>e. fst e < nextTimeout h \<and> valid_closure h (fst (snd e))) (timeouts h) \<and>
     list_all (\<lambda>e. fst e < nextFrame h \<and> valid_closure h (snd e)) (animationFrames h) \<and>
     list_all (\<lambda>l. valid_closure h (l_callback l)) (listeners h) \<and>
     list_all (\<lambda>sc. valid_canceller h (q_cancelTimer sc)) (scopes h)"

text \<open>A host with nothing pending and nothing registered.\<close>

definition idle_host :: host where
  "idle_host =
     \<lparr>timeouts = [], animationFrames = [], listeners = [], nextTimeout = 1, nextFrame = 1,
      scopes = [], ran = []\<rparr>"

subsection \<open>One call of \<^verbatim>\<open>queueBeforeEvent\<close>, against the host without it\<close>

text \<open>
  The statements about the two triggers compare a host \<open>g'\<close> in which the call was
  made with the host \<open>g\<close> in which it was not, run through the same steps. What the
  call has left in the host depends on how far it has come: both triggers are pending
  (\<open>Armed\<close>), the timer was cancelled and the listener alone is registered
  (\<open>Disarmed\<close>), or the callback has been invoked (\<open>Fired\<close>).
\<close>

datatype phase = Armed | Disarmed | Fired

text \<open>The listener, the timer entry and the frame entry of the call whose record is \<open>sc\<close>.\<close>

definition own_listener :: "nat \<Rightarrow> scope \<Rightarrow> listener" where
  "own_listener s sc =
     \<lparr>l_target = q_element sc, l_type = q_type sc, l_callback = CallSync s,
      l_capture = True, l_once = True\<rparr>"

definition own_timeouts :: "phase \<Rightarrow> nat \<Rightarrow> scope \<Rightarrow> number \<Rightarrow> (nat \<times> closure \<times> number) list" where
  "own_timeouts ph s sc d =
     (case q_cancelTimer sc of
        ClearTimeout i \<Rightarrow> if ph = Armed then [(i, OnTimer s, d)] else []
      | CancelAnimationFrame i \<Rightarrow> [])"

definition own_frames :: "phase \<Rightarrow> nat \<Rightarrow> scope \<Rightarrow> (nat \<times> closure) list" where
  "own_frames ph s sc =
     (case q_cancelTimer sc of
        ClearTimeout i \<Rightarrow> []
      | CancelAnimationFrame i \<Rightarrow> if ph = Armed then [(i, OnTimer s)] else [])"

text \<open>
  \<open>overlay ph sc d g g'\<close>: the host \<open>g'\<close> is the host \<open>g\<close> with the call of record
  \<open>sc\<close> in phase \<open>ph\<close> on top, and the callback of the call has run in \<open>g'\<close> once more
  than in \<open>g\<close> exactly when the phase is \<open>Fired\<close>.
\<close>

definition overlay :: "phase \<Rightarrow> scope \<Rightarrow> number \<Rightarrow> host \<Rightarrow> host \<Rightarrow> bool" where
  "overlay ph sc d g g' \<longleftrightarrow>
     timeouts g' = timeouts g @ own_timeouts ph (length (scopes g)) sc d \<and>
     animationFrames g' = animationFrames g @ own_frames ph (length (scopes g)) sc \<and>
     listeners g' = listeners g @ (if ph = Fired then [] else [own_listener (length (scopes g)) sc]) \<and>
     scopes g' = scopes g @ [sc] \<and>
     count_list (ran g') (q_callback sc) =
       count_list (ran g) (q_callback sc) + (if ph = Fired then 1 else 0)"

text \<open>The timer id of the call is not one the host \<open>g\<close> has handed out.\<close>

definition fresh :: "host \<Rightarrow> scope \<Rightarrow> bool" where
  "fresh g sc \<longleftrightarrow> wf_host g \<and> \<not> valid_canceller g (q_cancelTimer sc)"

text \<open>
  A step moves the call to \<open>Fired\<close> when it is its timer firing while the timer is
  pending, or an event of its type reaching its element while the listener is
  registered.
\<close>

definition next_phase :: "scope \<Rightarrow> phase \<Rightarrow> step \<Rightarrow> phase" where
  "next_phase sc ph x =
     (if ph = Armed \<and> x = timer_step (q_cancelTimer sc) then Fired
      else if ph \<noteq> Fired \<and> x = Dispatch (q_element sc) (q_type sc) then Fired
      else ph)"

fun phase_after :: "scope \<Rightarrow> phase \<Rightarrow> step list \<Rightarrow> phase" where
  "phase_after sc ph [] = ph"
| "phase_after sc ph (x # xs) = phase_after sc (next_phase sc ph x) xs"

text \<open>Calls of closures and host steps only take entries away.\<close>

definition shrinks :: "host \<Rightarrow> host \<Rightarrow> bool" where
  "shrinks g g' \<longleftrightarrow>
     set (timeouts g') \<subseteq> set (timeouts g) \<and>
     set (animationFrames g') \<subseteq> set (animationFrames g) \<and>
     set (listeners g') \<subseteq> set (listeners g) \<and>
     scopes g' = scopes g \<and> nextTimeout g' = nextTimeout g \<and> nextFrame g' = nextFrame g"

subsection \<open>Synthetic events\<close>

text \<open>
  An init dictionary (\<^verbatim>\<open>EventInit\<close>, \<^verbatim>\<open>FocusEventInit\<close>) is its members; the
  optional argument \<^verbatim>\<open>eventInit\<close> is \<open>None\<close> when it is left out. An event made by
  \<^verbatim>\<open>new FocusEvent(type, init)\<close> is known by its interface, its type and the members
  it was made from; its \<^verbatim>\<open>bubbles\<close> attribute is the \<^verbatim>\<open>bubbles\<close> member, false when
  the member is missing.
\<close>

type_synonym dict = "(string \<times> js_value) list"

record dom_event =
  e_interface :: string
  e_type :: string
  e_init :: dict

definition new_event :: "string \<Rightarrow> string \<Rightarrow> dict option \<Rightarrow> dom_event" where
  "new_event interface ty eventInit =
     \<lparr>e_interface = interface, e_type = ty,
      e_init = (case eventInit of None \<Rightarrow> [] | Some d \<Rightarrow> d)\<rparr>"

definition e_bubbles :: "dom_event \<Rightarrow> bool" where
  "e_bubbles ev = (case map_of (e_init ev) ''bubbles'' of None \<Rightarrow> False | Some v \<Rightarrow> truthy v)"

text \<open>
  \<^verbatim>\<open>{ ...eventInit, bubbles: true }\<close>: the members of \<^verbatim>\<open>eventInit\<close>, none when it is
  \<^verbatim>\<open>undefined\<close>, with \<^verbatim>\<open>bubbles\<close> set to \<^verbatim>\<open>true\<close>.
\<close>

fun set_member :: "string \<Rightarrow> js_value \<Rightarrow> dict \<Rightarrow> dict" where
  "set_member key v [] = [(key, v)]"
| "set_member key v (p # ps) = (if fst p = key then (key, v) # ps else p # set_member key v ps)"

definition spread_bubbles :: "dict option \<Rightarrow> dict" where
  "spread_bubbles eventInit =
     set_member ''bubbles'' (JBool True) (case eventInit of None \<Rightarrow> [] | Some d \<Rightarrow> d)"

text \<open>
  \<^verbatim>\<open>element.dispatchEvent(event)\<close> belongs to the browser: it runs whatever listeners
  the page has and answers whether the default action is still allowed. It is the first
  argument of the helpers, a function from the state of the page to the answer and the
  new state; \<open>dom_dispatch\<close> below is the browser's.
\<close>

definition fireEvent ::
  "(node \<Rightarrow> dom_event \<Rightarrow> 'h \<Rightarrow> bool \<times> 'h) \<Rightarrow> node \<Rightarrow> string \<Rightarrow> dict option \<Rightarrow> 'h \<Rightarrow> bool \<times> 'h" where
  "fireEvent dispatch element ty eventInit h =
     (let event = new_event ''Event'' ty eventInit in dispatch element event h)"

definition fireBlurEvent ::
  "(node \<Rightarrow> dom_event \<Rightarrow> 'h \<Rightarrow> bool \<times> 'h) \<Rightarrow> node \<Rightarrow> dict option \<Rightarrow> 'h \<Rightarrow> bool \<times> 'h" where
  "fireBlurEvent dispatch element eventInit h =
     (let event = new_event ''FocusEvent'' ''blur'' eventInit;
          (defaultAllowed, h1) = dispatch element event h;
          bubbleInit = spread_bubbles eventInit;
          (ignored, h2) = dispatch element (new_event ''FocusEvent'' ''focusout'' (Some bubbleInit)) h1
      in (defaultAllowed, h2))"

definition fireFocusEvent ::
  "(node \<Rightarrow> dom_event \<Rightarrow> 'h \<Rightarrow> bool \<times> 'h) \<Rightarrow> node \<Rightarrow> dict option \<Rightarrow> 'h \<Rightarrow> bool \<times> 'h" where
  "fireFocusEvent dispatch element eventInit h =
     (let event = new_event ''FocusEvent'' ''focus'' eventInit;
          (defaultAllowed, h1) = dispatch element event h;
          bubbleInit = spread_bubbles eventInit;
          (ignored, h2) = dispatch element (new_event ''FocusEvent'' ''focusin'' (Some bubbleInit)) h1
      in (defaultAllowed, h2))"

text \<open>
  A dispatch function that also keeps the list of the events it was given, in order:
  what a helper dispatches is read off that list.
\<close>

definition traced ::
  "(node \<Rightarrow> dom_event \<Rightarrow> 'h \<Rightarrow> bool \<times> 'h) \<Rightarrow>
   node \<Rightarrow> dom_event \<Rightarrow> (node \<times> dom_event) list \<times> 'h \<Rightarrow> bool \<times> (node \<times> dom_event) list \<times> 'h" where
  "traced dispatch element event s =
     (case dispatch element event (snd s) of
        (allowed, h') \<Rightarrow> (allowed, fst s @ [(element, event)], h'))"

text \<open>
  What the browser's \<^verbatim>\<open>dispatchEvent\<close> answers. The event goes to the listeners it
  reaches. A call of \<^verbatim>\<open>preventDefault\<close> sets the canceled flag of the event only if the
  event is cancelable and the listener was not registered as passive; otherwise the call
  does nothing. \<^verbatim>\<open>dispatchEvent\<close> answers \<^verbatim>\<open>false\<close> exactly when the flag is set.
  The \<^verbatim>\<open>cancelable\<close> attribute of an event is the \<^verbatim>\<open>cancelable\<close> member it was made
  from, false when the member is missing.
\<close>

record handler =
  calls_preventDefault :: bool
  is_passive :: bool

definition e_cancelable :: "dom_event \<Rightarrow> bool" where
  "e_cancelable ev = (case map_of (e_init ev) ''cancelable'' of None \<Rightarrow> False | Some v \<Rightarrow> truthy v)"

definition canceled :: "handler list \<Rightarrow> dom_event \<Rightarrow> bool" where
  "canceled hs event \<longleftrightarrow>
     e_cancelable event \<and> list_ex (\<lambda>l. calls_preventDefault l \<and> \<not> is_passive l) hs"

text \<open>
  Which listeners an event reaches, and what running them does to the page, is the
  page's: \<open>reached\<close> gives, for a target, an event and the state of the page, the
  listeners that are run, each by what it does with \<^verbatim>\<open>preventDefault\<close>; \<open>effect\<close> gives
  the state of the page afterwards.
\<close>

definition dom_dispatch ::
  "(node \<Rightarrow> dom_event \<Rightarrow> 's \<Rightarrow> handler list) \<Rightarrow> (node \<Rightarrow> dom_event \<Rightarrow> 's \<Rightarrow> 's) \<Rightarrow>
   node \<Rightarrow> dom_event \<Rightarrow> 's \<Rightarrow> bool \<times> 's" where
  "dom_dispatch reached effect element event s =
     (\<not> canceled (reached element event s) event, effect element event s)"

text \<open>
  A page for the examples: every \<^verbatim>\<open>blur\<close> event reaches one listener, not passive,
  that calls \<^verbatim>\<open>preventDefault\<close>; no other event reaches a listener; the state of the
  page is the number of events dispatched so far.
\<close>

definition blur_preventer :: "node \<Rightarrow> dom_event \<Rightarrow> nat \<Rightarrow> handler list" where
  "blur_preventer element event s =
     (if e_type event = ''blur'' then [\<lparr>calls_preventDefault = True, is_passive = False\<rparr>] else [])"

definition count_dispatch :: "node \<Rightarrow> dom_event \<Rightarrow> nat \<Rightarrow> nat" where
  "count_dispatch element event s = Suc s"

subsection \<open>\<^verbatim>\<open>addGlobalEventListener\<close>\<close>

text \<open>
  A window is known by its identity as an event target and has its child frames. A
  cross-origin or sandboxed window throws when its listener methods are reached
  (\<open>w_denied\<close>); reading the frames of a window can throw as well
  (\<open>w_frames_denied\<close>).
\<close>

datatype window =
  Window (w_id: node) (w_denied: bool) (w_frames_denied: bool) (w_frames: "window list")

text \<open>
  \<^verbatim>\<open>options?: boolean | AddEventListenerOptions\<close>, with the members of the dictionary
  that decide which registration is meant and how long it lasts.
\<close>

datatype listener_options =
    NoOptions
  | UseCapture bool
  | Options (o_capture: bool) (o_once: bool)

fun capture_of :: "listener_options \<Rightarrow> bool" where
  "capture_of NoOptions = False"
| "capture_of (UseCapture b) = b"
| "capture_of (Options c on) = c"

fun once_of :: "listener_options \<Rightarrow> bool" where
  "once_of (Options c on) = on"
| "once_of opts = False"

text \<open>
  The three accesses to \<^verbatim>\<open>scope\<close> that can throw. A result is the outcome, \<open>Inl\<close>
  for a throw, and the host state after it.
\<close>

definition window_addEventListener ::
  "window \<Rightarrow> string \<Rightarrow> closure \<Rightarrow> listener_options \<Rightarrow> host \<Rightarrow> (js_error + unit) \<times> host" where
  "window_addEventListener scope ty listener options h =
     (if w_denied scope then (Inl SecurityError, h)
      else (Inr (),
            addEventListener
              \<lparr>l_target = w_id scope, l_type = ty, l_callback = listener,
               l_capture = capture_of options, l_once = once_of options\<rparr> h))"

definition window_removeEventListener ::
  "window \<Rightarrow> string \<Rightarrow> closure \<Rightarrow> listener_options \<Rightarrow> host \<Rightarrow> (js_error + unit) \<times> host" where
  "window_removeEventListener scope ty listener options h =
     (if w_denied scope then (Inl SecurityError, h)
      else (Inr (), removeEventListener (w_id scope) ty listener (capture_of options) h))"

fun window_frames :: "window \<Rightarrow> js_error + window list" where
  "window_frames (Window i den fden fs) = (if fden then Inl SecurityError else Inr fs)"

text \<open>
  The function that a call returns, \<^verbatim>\<open>removeEventListener\<close>, closed over the
  \<^verbatim>\<open>scope\<close>, \<^verbatim>\<open>type\<close>, \<^verbatim>\<open>listener\<close>, \<^verbatim>\<open>options\<close> and \<^verbatim>\<open>children\<close> of the call.
\<close>

datatype remover = Remover window string closure listener_options "remover list"

text \<open>
  The \<^verbatim>\<open>try\<close> block registers on \<^verbatim>\<open>scope\<close> and then loops over the frames, pushing
  the remover of each onto \<^verbatim>\<open>children\<close>; a throw anywhere in it leaves the block with
  the children pushed so far, and the empty \<^verbatim>\<open>catch\<close> drops it. \<open>attach_frames\<close> is
  the loop: it answers the throw that ended it, if any, and \<^verbatim>\<open>children\<close>.
\<close>

function (sequential) addGlobalEventListener ::
    "string \<Rightarrow> closure \<Rightarrow> listener_options \<Rightarrow> window \<Rightarrow> host \<Rightarrow> (js_error + remover) \<times> host"
  and attach_frames ::
    "string \<Rightarrow> closure \<Rightarrow> listener_options \<Rightarrow> window list \<Rightarrow> remover list \<Rightarrow> host \<Rightarrow>
       (js_error option \<times> remover list) \<times> host" where
  "addGlobalEventListener ty listener options (Window i den fden fs) h =
     (case (case window_addEventListener (Window i den fden fs) ty listener options h of
              (Inl e, h1) \<Rightarrow> ((Some e, []), h1)
            | (Inr u, h1) \<Rightarrow>
                (case window_frames (Window i den fden fs) of
                   Inl e \<Rightarrow> ((Some e, []), h1)
                 | Inr frames \<Rightarrow> attach_frames ty listener options frames [] h1)) of
        ((caught, children), h2) \<Rightarrow>
          (Inr (Remover (Window i den fden fs) ty listener options children), h2))"
| "attach_frames ty listener options [] children h = ((None, children), h)"
| "attach_frames ty listener options (frame # frames) children h =
     (case addGlobalEventListener ty listener options frame h of
        (Inl e, h1) \<Rightarrow> ((Some e, children), h1)
      | (Inr remove, h1) \<Rightarrow> attach_frames ty listener options frames (children @ [remove]) h1)"
  by pat_completeness auto
termination
  by (relation "measure (\<lambda>x. case x of
                   Inl (ty, listener, options, scope, h) \<Rightarrow> size scope
                 | Inr (ty, listener, options, frames, children, h) \<Rightarrow> size_list size frames)")
     (auto split: if_splits)

text \<open>
  Calling the returned function: \<^verbatim>\<open>scope.removeEventListener\<close> inside a \<^verbatim>\<open>try\<close> with
  an empty \<^verbatim>\<open>catch\<close>, then every child remover in turn, outside of any \<^verbatim>\<open>try\<close>.
\<close>

fun run_remover :: "remover \<Rightarrow> host \<Rightarrow> (js_error + unit) \<times> host"
  and run_removers :: "remover list \<Rightarrow> host \<Rightarrow> (js_error + unit) \<times> host" where
  "run_remover (Remover scope ty listener options children) h =
     (case window_removeEventListener scope ty listener options h of
        (caught, h1) \<Rightarrow> run_removers children h1)"
| "run_removers [] h = (Inr (), h)"
| "run_removers (remove # rest) h =
     (case run_remover remove h of
        (Inl e, h1) \<Rightarrow> (Inl e, h1)
      | (Inr u, h1) \<Rightarrow> run_removers rest h1)"

text \<open>
  The windows a call can reach: the scope when it does not throw, and from a window that
  was reached and gives out its frames, what can be reached from one of its frames.
  Whether a window is reached depends on the windows on the way to it and on no other.
\<close>

fun covered :: "window \<Rightarrow> window \<Rightarrow> bool" where
  "covered (Window i den fden fs) v \<longleftrightarrow>
     \<not> den \<and> (v = Window i den fden fs \<or> \<not> fden \<and> list_ex (\<lambda>f. covered f v) fs)"

definition covered_ids :: "window \<Rightarrow> node set" where
  "covered_ids w = {w_id v |v. covered w v}"

text \<open>The remover that a call on a window returns.\<close>

fun built :: "string \<Rightarrow> closure \<Rightarrow> listener_options \<Rightarrow> window \<Rightarrow> remover" where
  "built ty listener options (Window i den fden fs) =
     Remover (Window i den fden fs) ty listener options
       (if den \<or> fden then [] else map (built ty listener options) fs)"

text \<open>
  \<open>adds\<close>: the host \<open>h'\<close> has the registrations of \<open>h\<close> and the listener on the
  targets \<open>ts\<close>; \<open>removes\<close>: it has those of \<open>h\<close> but for the listener on \<open>ts\<close>.
\<close>

definition adds :: "string \<Rightarrow> closure \<Rightarrow> listener_options \<Rightarrow> node set \<Rightarrow> host \<Rightarrow> host \<Rightarrow> bool" where
  "adds ty listener options ts h h' \<longleftrightarrow>
     (\<forall>t ty' l' c'. registered h' t ty' l' c' \<longleftrightarrow>
        registered h t ty' l' c' \<or>
        ty' = ty \<and> l' = listener \<and> c' = capture_of options \<and> t \<in> ts)"

definition removes :: "string \<Rightarrow> closure \<Rightarrow> listener_options \<Rightarrow> node set \<Rightarrow> host \<Rightarrow> host \<Rightarrow> bool" where
  "removes ty listener options ts h h' \<longleftrightarrow>
     (\<forall>t ty' l' c'. registered h' t ty' l' c' \<longleftrightarrow>
        registered h t ty' l' c' \<and>
        \<not> (ty' = ty \<and> l' = listener \<and> c' = capture_of options \<and> t \<in> ts))"

section \<open>Properties\<close>

subsection \<open>Lower-casing\<close>

lemma toLowerCase_Nil [simp]: "toLowerCase [] = []"
  by (simp add: toLowerCase_def)

lemma toLowerCase_length [simp]: "length (toLowerCase s) = length s"
  by (simp add: toLowerCase_def)

subsection \<open>Intent predicates\<close>

text \<open>
  C6. \<^verbatim>\<open>isOpeningInNewTab\<close> answers true exactly when the event has a current
  target, the modifier of the platform is held (\<^verbatim>\<open>metaKey\<close> where the platform check
  says Apple, \<^verbatim>\<open>ctrlKey\<close> otherwise) and the element is an anchor, or a button or input
  of type \<^verbatim>\<open>submit\<close>; with a \<^verbatim>\<open>null\<close> current target it answers false.
\<close>

theorem isOpeningInNewTab_iff:
  "isOpeningInNewTab isApple event \<longleftrightarrow>
     (case currentTarget event of
        None \<Rightarrow> False
      | Some el \<Rightarrow> (if isApple then metaKey event else ctrlKey event) \<and> is_link_or_submit el)"
  by (auto simp: isOpeningInNewTab_def is_link_or_submit_def Let_def split: option.splits)

theorem isOpeningInNewTab_witness:
  "isOpeningInNewTab True
     \<lparr>currentTarget = Some \<lparr>tagName = ''A'', type = []\<rparr>,
      metaKey = True, ctrlKey = False, altKey = False\<rparr> \<and>
   \<not> isOpeningInNewTab True
     \<lparr>currentTarget = Some \<lparr>tagName = ''A'', type = []\<rparr>,
      metaKey = False, ctrlKey = True, altKey = False\<rparr> \<and>
   isOpeningInNewTab False
     \<lparr>currentTarget = Some \<lparr>tagName = ''INPUT'', type = ''submit''\<rparr>,
      metaKey = False, ctrlKey = True, altKey = False\<rparr> \<and>
   \<not> isOpeningInNewTab False
     \<lparr>currentTarget = None, metaKey = True, ctrlKey = True, altKey = False\<rparr>"
  by (simp add: isOpeningInNewTab_iff is_link_or_submit_def toLowerCase_def)

text \<open>
  C7. \<^verbatim>\<open>isDownloading\<close> answers true exactly when the event has a current target,
  \<^verbatim>\<open>altKey\<close> is held and the element passes the same gate; the answer is the same for
  both outcomes of the platform check, and false for a \<^verbatim>\<open>null\<close> current target.
\<close>

theorem isDownloading_iff:
  "(isDownloading isApple event \<longleftrightarrow>
      (case currentTarget event of
         None \<Rightarrow> False
       | Some el \<Rightarrow> altKey event \<and> is_link_or_submit el)) \<and>
   isDownloading True event = isDownloading False event"
  by (auto simp: isDownloading_def is_link_or_submit_def Let_def split: option.splits)

theorem isDownloading_witness:
  "isDownloading True
     \<lparr>currentTarget = Some \<lparr>tagName = ''A'', type = []\<rparr>,
      metaKey = False, ctrlKey = False, altKey = True\<rparr> \<and>
   \<not> isDownloading False
     \<lparr>currentTarget = Some \<lparr>tagName = ''A'', type = []\<rparr>,
      metaKey = True, ctrlKey = True, altKey = False\<rparr> \<and>
   \<not> isDownloading True
     \<lparr>currentTarget = Some \<lparr>tagName = ''BUTTON'', type = ''button''\<rparr>,
      metaKey = False, ctrlKey = False, altKey = True\<rparr> \<and>
   \<not> isDownloading True
     \<lparr>currentTarget = None, metaKey = False, ctrlKey = False, altKey = True\<rparr>"
  by (simp add: isDownloading_iff is_link_or_submit_def toLowerCase_def)

subsection \<open>\<^verbatim>\<open>getInputType\<close>\<close>

lemma js_in_keys: "key \<in> fst ` set ps \<longleftrightarrow> map_of ps key \<noteq> None"
  by (simp add: map_of_eq_None_iff)

text \<open>
  C9. On a raw event or a wrapper with a \<^verbatim>\<open>nativeEvent\<close> field (an event, \<^verbatim>\<open>null\<close>
  or \<^verbatim>\<open>undefined\<close>), \<^verbatim>\<open>getInputType\<close> does not throw: it returns the
  \<^verbatim>\<open>inputType\<close> of the inspected event when that is a string, and \<^verbatim>\<open>undefined\<close>
  in every other case.
\<close>

theorem getInputType_total:
  assumes "event_or_wrapper event"
  shows "getInputType event =
      Inr (if is_string (js_get (native_of event) ''inputType'')
           then js_get (native_of event) ''inputType'' else JUndefined)"
proof -
  from assms obtain ps where ev: "event = JObject ps" by (cases event) auto
  show ?thesis
  proof (cases "map_of ps ''nativeEvent''")
    case None
    then show ?thesis
      by (auto simp: ev getInputType_def native_of_def js_in_keys split: option.splits)
  next
    case (Some v)
    with assms ev have "is_event_object v \<or> v = JNull \<or> v = JUndefined" by simp
    then show ?thesis using Some
      by (cases v) (auto simp: ev getInputType_def native_of_def js_in_keys split: option.splits)
  qed
qed

theorem getInputType_total_witness:
  "event_or_wrapper (JObject [(''nativeEvent'', JObject [(''inputType'', JString ''insertText'')])]) \<and>
   getInputType (JObject [(''nativeEvent'', JObject [(''inputType'', JString ''insertText'')])]) =
     Inr (JString ''insertText'') \<and>
   event_or_wrapper (JObject [(''nativeEvent'', JNull)]) \<and>
   getInputType (JObject [(''nativeEvent'', JNull)]) = Inr JUndefined \<and>
   event_or_wrapper (JObject [(''inputType'', JNumber (Num 3))]) \<and>
   getInputType (JObject [(''inputType'', JNumber (Num 3))]) = Inr JUndefined"
proof -
  have a: "event_or_wrapper (JObject [(''nativeEvent'', JObject [(''inputType'', JString ''insertText'')])])"
    by simp
  have b: "event_or_wrapper (JObject [(''nativeEvent'', JNull)])"
    by simp
  have c: "event_or_wrapper (JObject [(''inputType'', JNumber (Num 3))])"
    by simp
  show ?thesis
    using a b c getInputType_total [OF a] getInputType_total [OF b] getInputType_total [OF c]
    by (simp add: native_of_def)
qed

text \<open>
  Outside the signature the \<^verbatim>\<open>in\<close> operator can throw: a wrapper whose
  \<^verbatim>\<open>nativeEvent\<close> is a truthy primitive.
\<close>

lemma getInputType_primitive: "getInputType (JObject [(''nativeEvent'', JBool True)]) = Inl TypeError"
  by (simp add: getInputType_def)

subsection \<open>The host under calls and steps\<close>

lemma count_list_snoc: "count_list (xs @ [y]) c = count_list xs c + (if y = c then 1 else 0)"
  by (induction xs) auto

lemma valid_closure_cong: "length (scopes g1) = length (scopes g2) \<Longrightarrow> valid_closure g1 cl = valid_closure g2 cl"
  by (cases cl) simp_all

lemma valid_canceller_cong:
  "nextTimeout g1 = nextTimeout g2 \<Longrightarrow> nextFrame g1 = nextFrame g2 \<Longrightarrow>
   valid_canceller g1 ct = valid_canceller g2 ct"
  by (cases ct) simp_all

lemma wf_host_shrink:
  assumes "wf_host g"
    and "set (timeouts g') \<subseteq> set (timeouts g)"
    and "set (animationFrames g') \<subseteq> set (animationFrames g)"
    and "set (listeners g') \<subseteq> set (listeners g)"
    and "scopes g' = scopes g" and "nextTimeout g' = nextTimeout g" and "nextFrame g' = nextFrame g"
  shows "wf_host g'"
  using assms unfolding wf_host_def list_all_iff
  by (auto simp: valid_closure_cong [of g' g] valid_canceller_cong [of g' g])

lemma cancel_shrink:
  "set (timeouts (cancel ct g)) \<subseteq> set (timeouts g)"
  "set (animationFrames (cancel ct g)) \<subseteq> set (animationFrames g)"
  "listeners (cancel ct g) = listeners g"
  "scopes (cancel ct g) = scopes g"
  "nextTimeout (cancel ct g) = nextTimeout g"
  "nextFrame (cancel ct g) = nextFrame g"
  "ran (cancel ct g) = ran g"
  by (cases ct; auto simp: clearTimeout_def cancelAnimationFrame_def)+

lemma call_fields [simp]:
  "scopes (call cl g) = scopes g"
  "nextTimeout (call cl g) = nextTimeout g"
  "nextFrame (call cl g) = nextFrame g"
  by (cases cl; simp add: run_callback_def removeEventListener_def cancel_shrink)+

lemma call_shrink:
  "set (timeouts (call cl g)) \<subseteq> set (timeouts g)"
  "set (animationFrames (call cl g)) \<subseteq> set (animationFrames g)"
  "set (listeners (call cl g)) \<subseteq> set (listeners g)"
  using cancel_shrink(1,2) [of _ g]
  by (cases cl; auto simp: run_callback_def removeEventListener_def cancel_shrink)+

lemma wf_call: "wf_host g \<Longrightarrow> wf_host (call cl g)"
  by (erule wf_host_shrink) (simp_all add: call_shrink)

lemma fresh_call: "fresh g sc \<Longrightarrow> fresh (call cl g) sc"
  by (simp add: fresh_def wf_call valid_canceller_cong [of "call cl g" g])

lemma wf_scope_nth:
  "wf_host g \<Longrightarrow> s < length (scopes g) \<Longrightarrow> valid_canceller g (q_cancelTimer (scopes g ! s))"
  by (simp add: wf_host_def list_all_length)

lemma overlay_run_callback:
  "overlay ph sc d g g' \<Longrightarrow> overlay ph sc d (run_callback c g) (run_callback c g')"
  by (simp add: overlay_def run_callback_def count_list_snoc)

lemma overlay_remove:
  assumes "overlay ph sc d g g'" and "valid_closure g cb"
  shows "overlay ph sc d (removeEventListener t ty cb cap g) (removeEventListener t ty cb cap g')"
  using assms
  by (cases cb) (auto simp: overlay_def removeEventListener_def own_listener_def listens_def)

lemma overlay_cancel:
  assumes "overlay ph sc d g g'" and "valid_canceller g ct" and "\<not> valid_canceller g (q_cancelTimer sc)"
  shows "overlay ph sc d (cancel ct g) (cancel ct g')"
  using assms
  by (cases ct; cases "q_cancelTimer sc")
     (auto simp: overlay_def clearTimeout_def cancelAnimationFrame_def own_timeouts_def own_frames_def)

lemma overlay_scopes_nth:
  "overlay ph sc d g g' \<Longrightarrow> s < length (scopes g) \<Longrightarrow> scopes g' ! s = scopes g ! s"
  by (simp add: overlay_def nth_append)

lemma overlay_length: "overlay ph sc d g g' \<Longrightarrow> length (scopes g') = Suc (length (scopes g))"
  by (simp add: overlay_def)

lemma call_frame:
  assumes "fresh g sc" and "overlay ph sc d g g'" and "valid_closure g cl"
  shows "overlay ph sc d (call cl g) (call cl g')"
proof (cases cl)
  case (Callback c)
  then show ?thesis using assms by (simp add: overlay_run_callback)
next
  case (OnTimer s)
  with assms have s: "s < length (scopes g)" by simp
  then show ?thesis
    using assms OnTimer
    by (simp add: overlay_length overlay_scopes_nth [OF assms(2) s] overlay_run_callback overlay_remove)
next
  case (CallSync s)
  with assms have s: "s < length (scopes g)" by simp
  with assms have "valid_canceller g (q_cancelTimer (scopes g ! s))"
    by (simp add: fresh_def wf_scope_nth)
  then show ?thesis
    using assms CallSync s
    by (simp add: overlay_length overlay_scopes_nth [OF assms(2) s] overlay_run_callback
        overlay_cancel fresh_def)
qed

lemma overlay_registered:
  assumes "overlay ph sc d g g'" and "valid_closure g cb"
  shows "registered g' t ty cb cap = registered g t ty cb cap"
  using assms
  by (cases cb) (auto simp: overlay_def registered_def list_ex_iff own_listener_def listens_def)

lemma wf_remove: "wf_host g \<Longrightarrow> wf_host (removeEventListener t ty cb cap g)"
  by (erule wf_host_shrink) (auto simp: removeEventListener_def)

lemma remove_fields [simp]:
  "scopes (removeEventListener t ty cb cap g) = scopes g"
  "nextTimeout (removeEventListener t ty cb cap g) = nextTimeout g"
  "nextFrame (removeEventListener t ty cb cap g) = nextFrame g"
  by (simp_all add: removeEventListener_def)

lemma fresh_remove: "fresh g sc \<Longrightarrow> fresh (removeEventListener t ty cb cap g) sc"
  by (simp add: fresh_def wf_remove valid_canceller_cong [of "removeEventListener t ty cb cap g" g])

lemma invoke_frame:
  assumes "fresh g sc" and "overlay ph sc d g g'"
    and "list_all (\<lambda>l. valid_closure g (l_callback l)) ls"
  shows "overlay ph sc d (invoke_listeners ls g) (invoke_listeners ls g') \<and>
         fresh (invoke_listeners ls g) sc \<and>
         scopes (invoke_listeners ls g) = scopes g"
  using assms
proof (induction ls arbitrary: g g')
  case Nil
  then show ?case by simp
next
  case (Cons l ls)
  from Cons.prems have v: "valid_closure g (l_callback l)" by simp
  let ?k = "\<lambda>h. if l_once l
                 then removeEventListener (l_target l) (l_type l) (l_callback l) (l_capture l) h
                 else h"
  have reg: "registered g' (l_target l) (l_type l) (l_callback l) (l_capture l) =
             registered g (l_target l) (l_type l) (l_callback l) (l_capture l)"
    using Cons.prems(2) v by (rule overlay_registered)
  have o1: "overlay ph sc d (?k g) (?k g')"
    using Cons.prems(2) v by (simp add: overlay_remove)
  have f1: "fresh (?k g) sc" using Cons.prems(1) by (simp add: fresh_remove)
  have v1: "valid_closure (?k g) (l_callback l)"
    using v by (simp add: valid_closure_cong [of "?k g" g])
  have o2: "overlay ph sc d (call (l_callback l) (?k g)) (call (l_callback l) (?k g'))"
    using f1 o1 v1 by (rule call_frame)
  have f2: "fresh (call (l_callback l) (?k g)) sc" using f1 by (rule fresh_call)
  have s2: "scopes (call (l_callback l) (?k g)) = scopes g" by simp
  have vs: "list_all (\<lambda>l'. valid_closure (call (l_callback l) (?k g)) (l_callback l')) ls"
    using Cons.prems(3) s2 by (simp add: valid_closure_cong [of "call (l_callback l) (?k g)" g])
  show ?case
  proof (cases "registered g (l_target l) (l_type l) (l_callback l) (l_capture l)")
    case True
    then show ?thesis
      using Cons.IH [OF f2 o2 vs] reg s2 by simp
  next
    case False
    then show ?thesis
      using Cons.IH [OF Cons.prems(1) Cons.prems(2)] Cons.prems(3) reg by simp
  qed
qed

lemma find_append_eq:
  "find P (xs @ ys) = (case find P xs of None \<Rightarrow> find P ys | Some x \<Rightarrow> Some x)"
  by (induction xs) auto

lemma filter_id: "(\<And>x. x \<in> set xs \<Longrightarrow> P x) \<Longrightarrow> filter P xs = xs"
  by (induction xs) auto

lemma find_None: "(\<And>x. x \<in> set xs \<Longrightarrow> \<not> P x) \<Longrightarrow> find P xs = None"
  by (induction xs) auto

lemma wf_timeouts_fresh:
  assumes "wf_host g" and "\<not> i < nextTimeout g"
  shows "filter (\<lambda>e. fst e \<noteq> i) (timeouts g) = timeouts g"
    and "find (\<lambda>e. fst e = i) (timeouts g) = None"
  using assms by (auto simp: wf_host_def list_all_iff intro!: filter_id find_None)

lemma wf_frames_fresh:
  assumes "wf_host g" and "\<not> i < nextFrame g"
  shows "filter (\<lambda>e. fst e \<noteq> i) (animationFrames g) = animationFrames g"
    and "find (\<lambda>e. fst e = i) (animationFrames g) = None"
  using assms by (auto simp: wf_host_def list_all_iff intro!: filter_id find_None)

lemma wf_listeners_fresh:
  assumes "wf_host g"
  shows "filter (\<lambda>l. \<not> listens t ty (CallSync (length (scopes g))) cap l) (listeners g) = listeners g"
  using assms by (auto simp: wf_host_def list_all_iff listens_def intro!: filter_id)

lemma listens_own [simp]:
  "listens t ty cb cap (own_listener s sc) \<longleftrightarrow>
     t = q_element sc \<and> ty = q_type sc \<and> cb = CallSync s \<and> cap"
  by (auto simp: listens_def own_listener_def)

lemma own_fields [simp]:
  "l_target (own_listener s sc) = q_element sc"
  "l_type (own_listener s sc) = q_type sc"
  "l_callback (own_listener s sc) = CallSync s"
  "l_capture (own_listener s sc) = True"
  "l_once (own_listener s sc) = True"
  by (simp_all add: own_listener_def)

lemma own_fires:
  assumes "fresh g sc" and "overlay ph sc d g g'" and "ph \<noteq> Fired"
  shows "overlay Fired sc d g (invoke_listeners [own_listener (length (scopes g)) sc] g')"
proof -
  let ?s = "length (scopes g)"
  have wf: "wf_host g" using assms(1) by (simp add: fresh_def)
  have reg: "registered g' (q_element sc) (q_type sc) (CallSync ?s) True"
    using assms(2,3) by (simp add: overlay_def registered_def)
  have sc: "scopes g' ! ?s = sc" "?s < length (scopes g')"
    using assms(2) by (simp_all add: overlay_def)
  show ?thesis
  proof (cases "q_cancelTimer sc")
    case (ClearTimeout i)
    with assms(1) have i: "\<not> i < nextTimeout g" by (simp add: fresh_def)
    show ?thesis
      using assms(2,3) reg sc ClearTimeout wf_timeouts_fresh(1) [OF wf i] wf_listeners_fresh [OF wf, of "q_element sc" "q_type sc" True]
      by (simp add: overlay_def removeEventListener_def clearTimeout_def run_callback_def
           own_timeouts_def own_frames_def count_list_snoc)
  next
    case (CancelAnimationFrame i)
    with assms(1) have i: "\<not> i < nextFrame g" by (simp add: fresh_def)
    show ?thesis
      using assms(2,3) reg sc CancelAnimationFrame wf_frames_fresh(1) [OF wf i] wf_listeners_fresh [OF wf, of "q_element sc" "q_type sc" True]
      by (simp add: overlay_def removeEventListener_def cancelAnimationFrame_def run_callback_def
           own_timeouts_def own_frames_def count_list_snoc)
  qed
qed

lemma own_timeout_fires:
  assumes "fresh g sc" and "overlay Armed sc d g g'" and "q_cancelTimer sc = ClearTimeout i"
  shows "overlay Fired sc d g (fireTimeout i g')" and "fireTimeout i g = g"
proof -
  let ?s = "length (scopes g)"
  have wf: "wf_host g" using assms(1) by (simp add: fresh_def)
  from assms(1,3) have i: "\<not> i < nextTimeout g" by (simp add: fresh_def)
  have sc: "scopes g' ! ?s = sc" "?s < length (scopes g')"
    using assms(2) by (simp_all add: overlay_def)
  have fnd: "find (\<lambda>e. fst e = i) (timeouts g') = Some (i, OnTimer ?s, d)"
    using assms(2,3) wf_timeouts_fresh(2) [OF wf i]
    by (simp add: overlay_def own_timeouts_def find_append_eq)
  show "fireTimeout i g = g"
    using wf_timeouts_fresh(2) [OF wf i] by (simp add: fireTimeout_def)
  show "overlay Fired sc d g (fireTimeout i g')"
    using assms(2,3) fnd sc wf_timeouts_fresh(1) [OF wf i] wf_listeners_fresh [OF wf, of "q_element sc" "q_type sc" True]
    by (simp add: fireTimeout_def clearTimeout_def overlay_def removeEventListener_def run_callback_def
         own_timeouts_def own_frames_def count_list_snoc)
qed

lemma own_frame_fires:
  assumes "fresh g sc" and "overlay Armed sc d g g'" and "q_cancelTimer sc = CancelAnimationFrame i"
  shows "overlay Fired sc d g (fireFrame i g')" and "fireFrame i g = g"
proof -
  let ?s = "length (scopes g)"
  have wf: "wf_host g" using assms(1) by (simp add: fresh_def)
  from assms(1,3) have i: "\<not> i < nextFrame g" by (simp add: fresh_def)
  have sc: "scopes g' ! ?s = sc" "?s < length (scopes g')"
    using assms(2) by (simp_all add: overlay_def)
  have fnd: "find (\<lambda>e. fst e = i) (animationFrames g') = Some (i, OnTimer ?s)"
    using assms(2,3) wf_frames_fresh(2) [OF wf i]
    by (simp add: overlay_def own_frames_def find_append_eq)
  show "fireFrame i g = g"
    using wf_frames_fresh(2) [OF wf i] by (simp add: fireFrame_def)
  show "overlay Fired sc d g (fireFrame i g')"
    using assms(2,3) fnd sc wf_frames_fresh(1) [OF wf i] wf_listeners_fresh [OF wf, of "q_element sc" "q_type sc" True]
    by (simp add: fireFrame_def cancelAnimationFrame_def overlay_def removeEventListener_def run_callback_def
         own_timeouts_def own_frames_def count_list_snoc)
qed

lemma invoke_append:
  "invoke_listeners (xs @ ys) h = invoke_listeners ys (invoke_listeners xs h)"
  by (induction xs arbitrary: h) auto

lemma wf_cancel: "wf_host g \<Longrightarrow> wf_host (cancel ct g)"
  by (erule wf_host_shrink) (simp_all add: cancel_shrink)

lemma fresh_cancel: "fresh g sc \<Longrightarrow> fresh (cancel ct g) sc"
  by (simp add: fresh_def wf_cancel cancel_shrink valid_canceller_cong [of "cancel ct g" g])

lemma find_SomeD: "find P xs = Some x \<Longrightarrow> x \<in> set xs \<and> P x"
  by (induction xs) (auto split: if_splits)

lemma fire_frame:
  assumes "fresh g sc" and "overlay ph sc d g g'"
    and "valid_canceller g ct" and "valid_closure g cb"
  shows "overlay ph sc d (call cb (cancel ct g)) (call cb (cancel ct g')) \<and>
         fresh (call cb (cancel ct g)) sc \<and> scopes (call cb (cancel ct g)) = scopes g"
proof -
  have o1: "overlay ph sc d (cancel ct g) (cancel ct g')"
    using assms(2,3,1) by (intro overlay_cancel) (simp_all add: fresh_def)
  have f1: "fresh (cancel ct g) sc" using assms(1) by (rule fresh_cancel)
  have v1: "valid_closure (cancel ct g) cb"
    using assms(4) by (simp add: valid_closure_cong [of "cancel ct g" g] cancel_shrink)
  have "overlay ph sc d (call cb (cancel ct g)) (call cb (cancel ct g'))"
    using f1 o1 v1 by (rule call_frame)
  moreover have "fresh (call cb (cancel ct g)) sc"
    using f1 by (rule fresh_call)
  moreover have "scopes (call cb (cancel ct g)) = scopes g"
    by (simp add: cancel_shrink)
  ultimately show ?thesis by simp
qed

lemma timeout_frame:
  assumes "fresh g sc" and "overlay ph sc d g g'"
    and "\<not> (ph = Armed \<and> q_cancelTimer sc = ClearTimeout j)"
  shows "overlay ph sc d (fireTimeout j g) (fireTimeout j g') \<and> fresh (fireTimeout j g) sc \<and>
         scopes (fireTimeout j g) = scopes g"
proof -
  have wf: "wf_host g" using assms(1) by (simp add: fresh_def)
  have fnd: "find (\<lambda>e. fst e = j) (timeouts g') = find (\<lambda>e. fst e = j) (timeouts g)"
    using assms(2,3)
    by (auto simp: overlay_def own_timeouts_def find_append_eq split: canceller.splits option.splits)
  show ?thesis
  proof (cases "find (\<lambda>e. fst e = j) (timeouts g)")
    case None
    then show ?thesis using assms fnd by (simp add: fireTimeout_def)
  next
    case (Some e)
    then have e: "e \<in> set (timeouts g)" "fst e = j" by (auto dest: find_SomeD)
    with wf have j: "valid_canceller g (ClearTimeout j)" and v: "valid_closure g (fst (snd e))"
      by (auto simp: wf_host_def list_all_iff)
    from fire_frame [OF assms(1,2) j v] show ?thesis
      using Some fnd by (simp add: fireTimeout_def)
  qed
qed

lemma frame_frame:
  assumes "fresh g sc" and "overlay ph sc d g g'"
    and "\<not> (ph = Armed \<and> q_cancelTimer sc = CancelAnimationFrame j)"
  shows "overlay ph sc d (fireFrame j g) (fireFrame j g') \<and> fresh (fireFrame j g) sc \<and>
         scopes (fireFrame j g) = scopes g"
proof -
  have wf: "wf_host g" using assms(1) by (simp add: fresh_def)
  have fnd: "find (\<lambda>e. fst e = j) (animationFrames g') = find (\<lambda>e. fst e = j) (animationFrames g)"
    using assms(2,3)
    by (auto simp: overlay_def own_frames_def find_append_eq split: canceller.splits option.splits)
  show ?thesis
  proof (cases "find (\<lambda>e. fst e = j) (animationFrames g)")
    case None
    then show ?thesis using assms fnd by (simp add: fireFrame_def)
  next
    case (Some e)
    then have e: "e \<in> set (animationFrames g)" "fst e = j" by (auto dest: find_SomeD)
    with wf have j: "valid_canceller g (CancelAnimationFrame j)" and v: "valid_closure g (snd e)"
      by (auto simp: wf_host_def list_all_iff)
    from fire_frame [OF assms(1,2) j v] show ?thesis
      using Some fnd by (simp add: fireFrame_def)
  qed
qed

lemma dispatch_frame:
  assumes "fresh g sc" and "overlay ph sc d g g'"
  shows "overlay (if ph \<noteq> Fired \<and> t = q_element sc \<and> ty = q_type sc then Fired else ph) sc d
           (dispatchEvent t ty g) (dispatchEvent t ty g') \<and>
         fresh (dispatchEvent t ty g) sc \<and> scopes (dispatchEvent t ty g) = scopes g"
proof -
  let ?m = "\<lambda>l. l_target l = t \<and> l_type l = ty"
  let ?a = "filter ?m (listeners g)"
  let ?own = "own_listener (length (scopes g)) sc"
  have wf: "wf_host g" using assms(1) by (simp add: fresh_def)
  have va: "list_all (\<lambda>l. valid_closure g (l_callback l)) ?a"
    using wf by (auto simp: wf_host_def list_all_iff)
  from invoke_frame [OF assms va]
  have o: "overlay ph sc d (invoke_listeners ?a g) (invoke_listeners ?a g')"
    and f: "fresh (invoke_listeners ?a g) sc"
    and s: "scopes (invoke_listeners ?a g) = scopes g"
    by blast+
  have base: "dispatchEvent t ty g = invoke_listeners ?a g"
    by (simp only: dispatchEvent_def)
  have f': "fresh (dispatchEvent t ty g) sc" unfolding base by (fact f)
  have s': "scopes (dispatchEvent t ty g) = scopes g" unfolding base by (fact s)
  show ?thesis
  proof (cases "ph \<noteq> Fired \<and> t = q_element sc \<and> ty = q_type sc")
    case True
    then have "filter ?m (listeners g') = ?a @ [?own]"
      using assms(2) by (simp add: overlay_def)
    then have run: "dispatchEvent t ty g' = invoke_listeners [?own] (invoke_listeners ?a g')"
      by (simp only: dispatchEvent_def invoke_append)
    from True have "ph \<noteq> Fired" by simp
    from own_fires [OF f o this]
    have "overlay Fired sc d (invoke_listeners ?a g) (invoke_listeners [?own] (invoke_listeners ?a g'))"
      by (simp only: s)
    then have "overlay Fired sc d (dispatchEvent t ty g) (dispatchEvent t ty g')"
      unfolding base run .
    then show ?thesis using True f' s' by simp
  next
    case False
    then have "filter ?m (listeners g') = ?a"
      using assms(2) by (auto simp: overlay_def)
    then have run: "dispatchEvent t ty g' = invoke_listeners ?a g'"
      by (simp only: dispatchEvent_def)
    have "overlay ph sc d (dispatchEvent t ty g) (dispatchEvent t ty g')"
      unfolding base run by (fact o)
    then show ?thesis using False f' s' by auto
  qed
qed

lemma step_frame:
  assumes "fresh g sc" and "overlay ph sc d g g'"
  shows "overlay (next_phase sc ph x) sc d (do_step x g) (do_step x g') \<and>
         fresh (do_step x g) sc \<and> scopes (do_step x g) = scopes g"
proof (cases x)
  case (FireTimeout j)
  show ?thesis
  proof (cases "ph = Armed \<and> q_cancelTimer sc = ClearTimeout j")
    case True
    then show ?thesis
      using assms own_timeout_fires [of g sc d g' j] FireTimeout by (simp add: next_phase_def)
  next
    case False
    then have "next_phase sc ph x = ph"
      using FireTimeout by (cases "q_cancelTimer sc") (auto simp: next_phase_def)
    then show ?thesis using timeout_frame [OF assms False] FireTimeout by simp
  qed
next
  case (FireFrame j)
  show ?thesis
  proof (cases "ph = Armed \<and> q_cancelTimer sc = CancelAnimationFrame j")
    case True
    then show ?thesis
      using assms own_frame_fires [of g sc d g' j] FireFrame by (simp add: next_phase_def)
  next
    case False
    then have "next_phase sc ph x = ph"
      using FireFrame by (cases "q_cancelTimer sc") (auto simp: next_phase_def)
    then show ?thesis using frame_frame [OF assms False] FireFrame by simp
  qed
next
  case (Dispatch t ty)
  have "next_phase sc ph x = (if ph \<noteq> Fired \<and> t = q_element sc \<and> ty = q_type sc then Fired else ph)"
    using Dispatch by (cases "q_cancelTimer sc") (auto simp: next_phase_def)
  then show ?thesis using dispatch_frame [OF assms, of t ty] Dispatch by simp
qed

lemma exec_frame:
  assumes "fresh g sc" and "overlay ph sc d g g'"
  shows "overlay (phase_after sc ph xs) sc d (exec xs g) (exec xs g')"
  using assms
proof (induction xs arbitrary: g g' ph)
  case Nil
  then show ?case by simp
next
  case (Cons x xs)
  from step_frame [OF Cons.prems, of x]
  show ?case using Cons.IH [of "do_step x g" "next_phase sc ph x" "do_step x g'"] by simp
qed

lemma phase_after_Fired: "phase_after sc Fired xs = Fired"
  by (induction xs) (auto simp: next_phase_def)

lemma phase_after_Disarmed:
  "phase_after sc Disarmed xs =
     (if Dispatch (q_element sc) (q_type sc) \<in> set xs then Fired else Disarmed)"
  by (induction xs) (auto simp: next_phase_def phase_after_Fired)

lemma timer_step_neq [simp]: "timer_step ct \<noteq> Dispatch t ty" "Dispatch t ty \<noteq> timer_step ct"
  by (cases ct; simp)+

lemma phase_after_Armed:
  "phase_after sc Armed xs =
     (if timer_step (q_cancelTimer sc) \<in> set xs \<or> Dispatch (q_element sc) (q_type sc) \<in> set xs
      then Fired else Armed)"
  by (induction xs) (auto simp: next_phase_def phase_after_Fired)

lemma queue_overlay:
  assumes "wf_host h" and "queueBeforeEvent el ty c timeout h = (cancelTimer, h')"
  shows "\<exists>sc d. fresh h sc \<and> overlay Armed sc d h h' \<and> q_element sc = el \<and> q_type sc = ty \<and>
           q_callback sc = c \<and> q_cancelTimer sc = cancelTimer"
proof -
  let ?sc = "\<lparr>q_element = el, q_type = ty, q_callback = c, q_cancelTimer = cancelTimer\<rparr>"
  have nr: "\<not> registered g el ty (CallSync (length (scopes h))) True"
    if "listeners g = listeners h" for g
    using assms(1) that by (auto simp: registered_def list_ex_iff wf_host_def list_all_iff listens_def)
  show ?thesis
  proof (cases "\<exists>t. timeout = Some t \<and> truthy_number t")
    case False
    then have "fresh h ?sc \<and> overlay Armed ?sc (Num 0) h h'"
      using assms nr
      by (auto simp: queueBeforeEvent_def createTimer_def requestAnimationFrame_def Let_def
          addEventListener_def fresh_def overlay_def own_timeouts_def own_frames_def own_listener_def
          split: option.splits if_splits)
    then show ?thesis by (intro exI [of _ ?sc] exI [of _ "Num 0"]) simp
  next
    case True
    then obtain t where t: "timeout = Some t" "truthy_number t" by blast
    then have "fresh h ?sc \<and> overlay Armed ?sc t h h'"
      using assms nr
      by (auto simp: queueBeforeEvent_def createTimer_def setTimeout_def Let_def
          addEventListener_def fresh_def overlay_def own_timeouts_def own_frames_def own_listener_def)
    then show ?thesis by (intro exI [of _ ?sc] exI [of _ t]) simp
  qed
qed

text \<open>
  Well-formedness is kept by every call of a closure, every step of the host and every
  call of \<^verbatim>\<open>queueBeforeEvent\<close>, and holds in the idle host.
\<close>

lemma shrinks_refl: "shrinks g g"
  by (simp add: shrinks_def)

lemma shrinks_trans: "shrinks g g' \<Longrightarrow> shrinks g' g'' \<Longrightarrow> shrinks g g''"
  by (auto simp: shrinks_def)

lemma shrinks_wf: "shrinks g g' \<Longrightarrow> wf_host g \<Longrightarrow> wf_host g'"
  by (rule wf_host_shrink [of g g']) (simp_all add: shrinks_def)

lemma shrinks_cancel: "shrinks g (cancel ct g)"
  by (simp add: shrinks_def cancel_shrink)

lemma shrinks_call: "shrinks g (call cl g)"
  by (simp add: shrinks_def call_shrink)

lemma shrinks_remove: "shrinks g (removeEventListener t ty cb cap g)"
  by (auto simp: shrinks_def removeEventListener_def)

lemma shrinks_invoke: "shrinks g (invoke_listeners ls g)"
proof (induction ls arbitrary: g)
  case Nil
  show ?case by (simp add: shrinks_refl)
next
  case (Cons l ls)
  let ?k = "if l_once l
            then removeEventListener (l_target l) (l_type l) (l_callback l) (l_capture l) g
            else g"
  have "shrinks g ?k" by (simp add: shrinks_refl shrinks_remove)
  then have "shrinks g (call (l_callback l) ?k)"
    by (rule shrinks_trans) (rule shrinks_call)
  then have "shrinks g (invoke_listeners ls (call (l_callback l) ?k))"
    by (rule shrinks_trans) (rule Cons.IH)
  then show ?case using Cons.IH [of g] by simp
qed

lemma shrinks_step: "shrinks g (do_step x g)"
proof (cases x)
  case (FireTimeout j)
  have "shrinks g (call cb (cancel (ClearTimeout j) g))" for cb
    by (rule shrinks_trans [OF shrinks_cancel shrinks_call])
  then show ?thesis
    using FireTimeout by (simp add: fireTimeout_def shrinks_refl split: option.splits)
next
  case (FireFrame j)
  have "shrinks g (call cb (cancel (CancelAnimationFrame j) g))" for cb
    by (rule shrinks_trans [OF shrinks_cancel shrinks_call])
  then show ?thesis
    using FireFrame by (simp add: fireFrame_def shrinks_refl split: option.splits)
next
  case (Dispatch t ty)
  then show ?thesis by (simp add: dispatchEvent_def shrinks_invoke)
qed

lemma shrinks_exec: "shrinks g (exec xs g)"
proof (induction xs arbitrary: g)
  case Nil
  show ?case by (simp add: shrinks_refl)
next
  case (Cons x xs)
  show ?case using shrinks_trans [OF shrinks_step Cons.IH] by simp
qed

lemma wf_exec: "wf_host g \<Longrightarrow> wf_host (exec xs g)"
  by (rule shrinks_wf [OF shrinks_exec])

lemma wf_idle: "wf_host idle_host"
  by (simp add: wf_host_def idle_host_def)

lemma wf_overlay:
  assumes "fresh g sc" and "overlay ph sc d g g'"
    and "nextTimeout g' = Suc (nextTimeout g) \<and> nextFrame g' = nextFrame g \<and>
           q_cancelTimer sc = ClearTimeout (nextTimeout g) \<or>
         nextTimeout g' = nextTimeout g \<and> nextFrame g' = Suc (nextFrame g) \<and>
           q_cancelTimer sc = CancelAnimationFrame (nextFrame g)"
  shows "wf_host g'"
proof -
  have vc: "valid_closure g cl \<Longrightarrow> valid_closure g' cl" for cl
    using assms(2) by (cases cl) (simp_all add: overlay_def)
  have vk: "valid_canceller g ct \<Longrightarrow> valid_canceller g' ct" for ct
    using assms(3) by (cases ct) auto
  have own: "valid_canceller g' (q_cancelTimer sc)" using assms(3) by auto
  from assms(1) have wf: "wf_host g" by (simp add: fresh_def)
  have t: "list_all (\<lambda>e. fst e < nextTimeout g' \<and> valid_closure g' (fst (snd e))) (timeouts g')"
    using wf assms(2,3) vc
    by (auto simp: wf_host_def overlay_def own_timeouts_def list_all_iff split: if_splits)
  have f: "list_all (\<lambda>e. fst e < nextFrame g' \<and> valid_closure g' (snd e)) (animationFrames g')"
    using wf assms(2,3) vc
    by (auto simp: wf_host_def overlay_def own_frames_def list_all_iff split: if_splits)
  have l: "list_all (\<lambda>l. valid_closure g' (l_callback l)) (listeners g')"
    using wf assms(2) vc
    by (auto simp: wf_host_def overlay_def list_all_iff split: if_splits)
  have s: "list_all (\<lambda>sc. valid_canceller g' (q_cancelTimer sc)) (scopes g')"
    using wf assms(2) vk own
    by (auto simp: wf_host_def overlay_def list_all_iff)
  from t f l s show ?thesis by (simp add: wf_host_def)
qed

lemma queue_counters:
  assumes "queueBeforeEvent el ty c timeout h = (cancelTimer, h')"
  shows "nextTimeout h' = Suc (nextTimeout h) \<and> nextFrame h' = nextFrame h \<and>
           cancelTimer = ClearTimeout (nextTimeout h) \<or>
         nextTimeout h' = nextTimeout h \<and> nextFrame h' = Suc (nextFrame h) \<and>
           cancelTimer = CancelAnimationFrame (nextFrame h)"
  using assms
  by (auto simp: queueBeforeEvent_def createTimer_def setTimeout_def requestAnimationFrame_def
      addEventListener_def Let_def split: option.splits if_splits)

lemma wf_queueBeforeEvent:
  assumes "wf_host h" and "queueBeforeEvent el ty c timeout h = (cancelTimer, h')"
  shows "wf_host h'"
proof -
  from queue_overlay [OF assms] obtain sc d where
    f: "fresh h sc" and o: "overlay Armed sc d h h'" and sc: "q_cancelTimer sc = cancelTimer"
    by blast
  from queue_counters [OF assms(2)] show ?thesis
    by (intro wf_overlay [OF f o]) (simp add: sc)
qed

lemma overlay_disarm:
  assumes "fresh g sc" and "overlay Armed sc d g g'"
  shows "overlay Disarmed sc d g (cancel (q_cancelTimer sc) g')"
proof -
  have wf: "wf_host g" using assms(1) by (simp add: fresh_def)
  show ?thesis
  proof (cases "q_cancelTimer sc")
    case (ClearTimeout i)
    with assms(1) have i: "\<not> i < nextTimeout g" by (simp add: fresh_def)
    show ?thesis
      using assms(2) ClearTimeout wf_timeouts_fresh(1) [OF wf i]
      by (simp add: overlay_def clearTimeout_def own_timeouts_def own_frames_def)
  next
    case (CancelAnimationFrame i)
    with assms(1) have i: "\<not> i < nextFrame g" by (simp add: fresh_def)
    show ?thesis
      using assms(2) CancelAnimationFrame wf_frames_fresh(1) [OF wf i]
      by (simp add: overlay_def cancelAnimationFrame_def own_timeouts_def own_frames_def)
  qed
qed

lemma cancel_again:
  "cancel ct (exec xs (cancel ct g)) = exec xs (cancel ct g)"
proof -
  have sh: "shrinks (cancel ct g) (exec xs (cancel ct g))" by (rule shrinks_exec)
  show ?thesis
  proof (cases ct)
    case (ClearTimeout i)
    have "\<forall>e \<in> set (timeouts (exec xs (clearTimeout i g))). fst e \<noteq> i"
      using sh ClearTimeout by (auto simp: shrinks_def clearTimeout_def)
    then have "filter (\<lambda>e. fst e \<noteq> i) (timeouts (exec xs (clearTimeout i g))) =
               timeouts (exec xs (clearTimeout i g))"
      by (intro filter_id) blast
    then show ?thesis using ClearTimeout by (simp add: clearTimeout_def [of i "exec xs _"])
  next
    case (CancelAnimationFrame i)
    have "\<forall>e \<in> set (animationFrames (exec xs (cancelAnimationFrame i g))). fst e \<noteq> i"
      using sh CancelAnimationFrame by (auto simp: shrinks_def cancelAnimationFrame_def)
    then have "filter (\<lambda>e. fst e \<noteq> i) (animationFrames (exec xs (cancelAnimationFrame i g))) =
               animationFrames (exec xs (cancelAnimationFrame i g))"
      by (intro filter_id) blast
    then show ?thesis
      using CancelAnimationFrame by (simp add: cancelAnimationFrame_def [of i "exec xs _"])
  qed
qed

lemma cancel_idem: "cancel ct (cancel ct g) = cancel ct g"
  by (cases ct) (simp_all add: clearTimeout_def cancelAnimationFrame_def)

subsection \<open>\<^verbatim>\<open>queueBeforeEvent\<close>: the race of the two triggers\<close>

text \<open>
  C2. A call that is not cancelled, made in a well-formed host, then any steps of the
  host. If the timer of the call or an event of its type on its element is among the
  steps, the callback has been invoked exactly once more than in the same run of the
  host without the call, however often the triggers recur, and nothing of the call is
  left pending: the first trigger has cancelled the other. If neither is among the
  steps, the callback has not been invoked by the call.
\<close>

theorem queueBeforeEvent_once:
  assumes "wf_host h" and "queueBeforeEvent el ty c timeout h = (cancelTimer, h')"
  shows "if timer_step cancelTimer \<in> set xs \<or> Dispatch el ty \<in> set xs
         then count_list (ran (exec xs h')) c = Suc (count_list (ran (exec xs h)) c) \<and>
              timeouts (exec xs h') = timeouts (exec xs h) \<and>
              animationFrames (exec xs h') = animationFrames (exec xs h) \<and>
              listeners (exec xs h') = listeners (exec xs h)
         else count_list (ran (exec xs h')) c = count_list (ran (exec xs h)) c"
proof -
  from queue_overlay [OF assms] obtain sc d where
    f: "fresh h sc" and o: "overlay Armed sc d h h'" and
    sc: "q_element sc = el" "q_type sc = ty" "q_callback sc = c" "q_cancelTimer sc = cancelTimer"
    by blast
  from exec_frame [OF f o, of xs] show ?thesis
    using sc by (simp add: overlay_def phase_after_Armed own_timeouts_def own_frames_def
        split: canceller.splits)
qed

lemmas host_eval =
  queueBeforeEvent_def createTimer_def setTimeout_def requestAnimationFrame_def
  clearTimeout_def cancelAnimationFrame_def addEventListener_def removeEventListener_def
  registered_def listens_def run_callback_def fireTimeout_def fireFrame_def dispatchEvent_def
  idle_host_def

text \<open>
  A host in which an earlier call on the same element and type is still pending; the
  second call, with callback \<open>8\<close> and a timeout, is the one under test.
\<close>

theorem queueBeforeEvent_once_witness:
  "wf_host (snd (queueBeforeEvent 0 ''keydown'' 7 None idle_host)) \<and>
   fst (queueBeforeEvent 0 ''keydown'' 8 (Some (Num 100))
          (snd (queueBeforeEvent 0 ''keydown'' 7 None idle_host))) = ClearTimeout 1 \<and>
   ran (exec [FireTimeout 1, Dispatch 0 ''keydown'', FireTimeout 1, Dispatch 0 ''keydown'']
          (snd (queueBeforeEvent 0 ''keydown'' 8 (Some (Num 100))
                  (snd (queueBeforeEvent 0 ''keydown'' 7 None idle_host))))) = [8, 7] \<and>
   ran (exec [FireTimeout 1, Dispatch 0 ''keydown'', FireTimeout 1, Dispatch 0 ''keydown'']
          (snd (queueBeforeEvent 0 ''keydown'' 7 None idle_host))) = [7]"
proof -
  have q0: "queueBeforeEvent 0 ''keydown'' 7 None idle_host =
           (CancelAnimationFrame 1, snd (queueBeforeEvent 0 ''keydown'' 7 None idle_host))"
    by (simp add: host_eval)
  have w0: "wf_host (snd (queueBeforeEvent 0 ''keydown'' 7 None idle_host))"
    by (rule wf_queueBeforeEvent [OF wf_idle q0])
  have q1: "queueBeforeEvent 0 ''keydown'' 8 (Some (Num 100))
              (snd (queueBeforeEvent 0 ''keydown'' 7 None idle_host)) =
           (ClearTimeout 1,
            snd (queueBeforeEvent 0 ''keydown'' 8 (Some (Num 100))
                   (snd (queueBeforeEvent 0 ''keydown'' 7 None idle_host))))"
    by (simp add: host_eval)
  show ?thesis
    using queueBeforeEvent_once [OF w0 q1,
        of "[FireTimeout 1, Dispatch 0 ''keydown'', FireTimeout 1, Dispatch 0 ''keydown'']"] w0
    by (simp add: host_eval)
qed

text \<open>
  C1, as the code has it. The handle that is returned is \<^verbatim>\<open>cancelTimer\<close>: invoked
  before either trigger has fired, it takes the timer away, so that the timer never
  invokes the callback, and leaves the capture listener registered. The callback is
  then invoked, once, if and only if an event of the type reaches the element.
\<close>

theorem queueBeforeEvent_cancel:
  assumes "wf_host h" and "queueBeforeEvent el ty c timeout h = (cancelTimer, h')"
  shows "timeouts (cancel cancelTimer h') = timeouts h \<and>
         animationFrames (cancel cancelTimer h') = animationFrames h \<and>
         registered (cancel cancelTimer h') el ty (CallSync (length (scopes h))) True \<and>
         count_list (ran (exec xs (cancel cancelTimer h'))) c =
           count_list (ran (exec xs h)) c + (if Dispatch el ty \<in> set xs then 1 else 0)"
proof -
  from queue_overlay [OF assms] obtain sc d where
    f: "fresh h sc" and o: "overlay Armed sc d h h'" and
    sc: "q_element sc = el" "q_type sc = ty" "q_callback sc = c" "q_cancelTimer sc = cancelTimer"
    by blast
  from overlay_disarm [OF f o] have o': "overlay Disarmed sc d h (cancel cancelTimer h')"
    by (simp add: sc)
  from exec_frame [OF f o', of xs]
  have "count_list (ran (exec xs (cancel cancelTimer h'))) c =
           count_list (ran (exec xs h)) c + (if Dispatch el ty \<in> set xs then 1 else 0)"
    using sc by (simp add: overlay_def phase_after_Disarmed)
  moreover have "timeouts (cancel cancelTimer h') = timeouts h"
    "animationFrames (cancel cancelTimer h') = animationFrames h"
    "registered (cancel cancelTimer h') el ty (CallSync (length (scopes h))) True"
    using o' sc by (simp_all add: overlay_def own_timeouts_def own_frames_def registered_def
        split: canceller.splits)
  ultimately show ?thesis by simp
qed

theorem queueBeforeEvent_cancel_witness:
  "wf_host idle_host \<and>
   fst (queueBeforeEvent 0 ''keydown'' 7 None idle_host) = CancelAnimationFrame 1 \<and>
   animationFrames (cancel (CancelAnimationFrame 1)
      (snd (queueBeforeEvent 0 ''keydown'' 7 None idle_host))) = [] \<and>
   count_list (ran (exec [FireFrame 1, FireTimeout 1]
      (cancel (CancelAnimationFrame 1) (snd (queueBeforeEvent 0 ''keydown'' 7 None idle_host))))) 7 = 0 \<and>
   count_list (ran (exec [FireFrame 1, Dispatch 0 ''keydown'', Dispatch 0 ''keydown'']
      (cancel (CancelAnimationFrame 1) (snd (queueBeforeEvent 0 ''keydown'' 7 None idle_host))))) 7 = 1"
proof -
  have q: "queueBeforeEvent 0 ''keydown'' 7 None idle_host =
           (CancelAnimationFrame 1, snd (queueBeforeEvent 0 ''keydown'' 7 None idle_host))"
    by (simp add: host_eval)
  show ?thesis
    using queueBeforeEvent_cancel [OF wf_idle q, of "[FireFrame 1, FireTimeout 1]"]
      queueBeforeEvent_cancel [OF wf_idle q, of "[FireFrame 1, Dispatch 0 ''keydown'', Dispatch 0 ''keydown'']"]
      wf_idle
    by (simp add: host_eval)
qed

text \<open>
  C1, as the claim has it, fails: after the handle was invoked before either trigger,
  the listener is still registered and a later \<^verbatim>\<open>keydown\<close> runs the callback.
\<close>

theorem queueBeforeEvent_cancel_counterexample:
  "registered
     (cancel (fst (queueBeforeEvent 0 ''keydown'' 7 (Some (Num 100)) idle_host))
        (snd (queueBeforeEvent 0 ''keydown'' 7 (Some (Num 100)) idle_host)))
     0 ''keydown'' (CallSync 0) True \<and>
   ran (dispatchEvent 0 ''keydown''
     (cancel (fst (queueBeforeEvent 0 ''keydown'' 7 (Some (Num 100)) idle_host))
        (snd (queueBeforeEvent 0 ''keydown'' 7 (Some (Num 100)) idle_host)))) = [7]"
  by (simp add: host_eval)

subsection \<open>\<^verbatim>\<open>queueBeforeEvent\<close>: the choice of the timer\<close>

text \<open>
  C3, as the code has it. \<^verbatim>\<open>createTimer\<close> tests the truthiness of \<^verbatim>\<open>timeout\<close>: a
  \<^verbatim>\<open>timeout\<close> that is given and is neither \<^verbatim>\<open>0\<close> nor \<^verbatim>\<open>NaN\<close> makes the timer a
  \<^verbatim>\<open>setTimeout\<close> with that delay; an absent \<^verbatim>\<open>timeout\<close>, \<^verbatim>\<open>0\<close> and \<^verbatim>\<open>NaN\<close> make
  it a \<^verbatim>\<open>requestAnimationFrame\<close> callback.
\<close>

theorem createTimer_selection:
  assumes "queueBeforeEvent el ty c timeout h = (cancelTimer, h')"
  shows "case timeout of
           Some t \<Rightarrow>
             if truthy_number t
             then cancelTimer = ClearTimeout (nextTimeout h) \<and>
                  timeouts h' = timeouts h @ [(nextTimeout h, OnTimer (length (scopes h)), t)] \<and>
                  animationFrames h' = animationFrames h
             else cancelTimer = CancelAnimationFrame (nextFrame h) \<and>
                  animationFrames h' = animationFrames h @ [(nextFrame h, OnTimer (length (scopes h)))] \<and>
                  timeouts h' = timeouts h
         | None \<Rightarrow>
             cancelTimer = CancelAnimationFrame (nextFrame h) \<and>
             animationFrames h' = animationFrames h @ [(nextFrame h, OnTimer (length (scopes h)))] \<and>
             timeouts h' = timeouts h"
  using assms
  by (auto simp: queueBeforeEvent_def createTimer_def setTimeout_def requestAnimationFrame_def
      addEventListener_def Let_def split: option.splits if_splits)

theorem createTimer_selection_witness:
  "fst (queueBeforeEvent 0 ''keydown'' 7 (Some (Num 100)) idle_host) = ClearTimeout 1 \<and>
   timeouts (snd (queueBeforeEvent 0 ''keydown'' 7 (Some (Num 100)) idle_host)) =
     [(1, OnTimer 0, Num 100)] \<and>
   animationFrames (snd (queueBeforeEvent 0 ''keydown'' 7 (Some (Num 100)) idle_host)) = [] \<and>
   fst (queueBeforeEvent 0 ''keydown'' 7 None idle_host) = CancelAnimationFrame 1 \<and>
   animationFrames (snd (queueBeforeEvent 0 ''keydown'' 7 None idle_host)) = [(1, OnTimer 0)]"
  using createTimer_selection [OF prod.collapse [symmetric], of 0 "''keydown''" 7 "Some (Num 100)" idle_host]
    createTimer_selection [OF prod.collapse [symmetric], of 0 "''keydown''" 7 None idle_host]
  by (simp add: idle_host_def)

text \<open>
  C3, as the claim has it, fails at the timeout \<^verbatim>\<open>0\<close>: no \<^verbatim>\<open>setTimeout\<close> timer is
  made, the callback is queued for the next animation frame.
\<close>

theorem createTimer_selection_counterexample:
  "timeouts (snd (queueBeforeEvent 0 ''keydown'' 7 (Some (Num 0)) idle_host)) = [] \<and>
   animationFrames (snd (queueBeforeEvent 0 ''keydown'' 7 (Some (Num 0)) idle_host)) =
     [(1, OnTimer 0)] \<and>
   fst (queueBeforeEvent 0 ''keydown'' 7 (Some (Num 0)) idle_host) = CancelAnimationFrame 1"
  by (simp add: host_eval)

subsection \<open>\<^verbatim>\<open>queueBeforeEvent\<close>: the handle, invoked again\<close>

text \<open>
  C10. The handle a call returns, with either kind of timer: invoking it any number of
  times in a row, in any host state, leaves the host as one invocation does; and once
  it has been invoked, invoking it again after any steps of the host changes nothing.
\<close>

theorem cancelTimer_idempotent:
  assumes "queueBeforeEvent el ty c timeout h = (cancelTimer, h')"
  shows "(cancel cancelTimer ^^ Suc n) g = cancel cancelTimer g \<and>
         cancel cancelTimer (exec xs (cancel cancelTimer g)) = exec xs (cancel cancelTimer g)"
proof -
  have "(cancel ct ^^ Suc n) g = cancel ct g" for ct
    by (induction n) (simp_all add: cancel_idem)
  then show ?thesis by (simp add: cancel_again)
qed

theorem cancelTimer_idempotent_witness:
  "cancel (ClearTimeout 1)
     (cancel (ClearTimeout 1) (snd (queueBeforeEvent 0 ''keydown'' 7 (Some (Num 100)) idle_host))) =
   cancel (ClearTimeout 1) (snd (queueBeforeEvent 0 ''keydown'' 7 (Some (Num 100)) idle_host)) \<and>
   cancel (CancelAnimationFrame 1)
     (exec [Dispatch 0 ''keydown'']
        (cancel (CancelAnimationFrame 1) (snd (queueBeforeEvent 0 ''keydown'' 7 None idle_host)))) =
   exec [Dispatch 0 ''keydown'']
     (cancel (CancelAnimationFrame 1) (snd (queueBeforeEvent 0 ''keydown'' 7 None idle_host)))"
proof -
  have q1: "queueBeforeEvent 0 ''keydown'' 7 (Some (Num 100)) idle_host =
           (ClearTimeout 1, snd (queueBeforeEvent 0 ''keydown'' 7 (Some (Num 100)) idle_host))"
    by (simp add: host_eval)
  have q2: "queueBeforeEvent 0 ''keydown'' 7 None idle_host =
           (CancelAnimationFrame 1, snd (queueBeforeEvent 0 ''keydown'' 7 None idle_host))"
    by (simp add: host_eval)
  show ?thesis
    using cancelTimer_idempotent [OF q1, of 1
        "snd (queueBeforeEvent 0 ''keydown'' 7 (Some (Num 100)) idle_host)" "[]"]
      cancelTimer_idempotent [OF q2, of 0
        "snd (queueBeforeEvent 0 ''keydown'' 7 None idle_host)" "[Dispatch 0 ''keydown'']"]
    by simp
qed

subsection \<open>Registration across a tree of frames\<close>

lemma registered_add:
  "registered (addEventListener l h) t ty cb cap \<longleftrightarrow>
     registered h t ty cb cap \<or>
     t = l_target l \<and> ty = l_type l \<and> cb = l_callback l \<and> cap = l_capture l"
  by (auto simp: addEventListener_def registered_def list_ex_iff listens_def)

lemma registered_remove:
  "registered (removeEventListener t ty cb cap h) t' ty' cb' cap' \<longleftrightarrow>
     registered h t' ty' cb' cap' \<and> \<not> (t' = t \<and> ty' = ty \<and> cb' = cb \<and> cap' = cap)"
  by (auto simp: removeEventListener_def registered_def list_ex_iff listens_def)

lemma covered_ids_Window:
  "covered_ids (Window i den fden fs) =
     (if den then {} else insert i (if fden then {} else (\<Union>f \<in> set fs. covered_ids f)))"
proof -
  have "covered (Window i den fden fs) v \<longleftrightarrow>
          \<not> den \<and> (v = Window i den fden fs \<or> \<not> fden \<and> (\<exists>f \<in> set fs. covered f v))" for v
    by (simp add: list_ex_iff)
  then have "covered_ids (Window i den fden fs) =
      {w_id v |v. \<not> den \<and> (v = Window i den fden fs \<or> \<not> fden \<and> (\<exists>f \<in> set fs. covered f v))}"
    by (simp add: covered_ids_def)
  also have "\<dots> = (if den then {} else insert i (if fden then {} else (\<Union>f \<in> set fs. covered_ids f)))"
    by (cases den; cases fden) (force simp: covered_ids_def)+
  finally show ?thesis .
qed

lemma adds_refl: "adds ty l opts {} h h"
  by (simp add: adds_def)

lemma adds_trans: "adds ty l opts A h h1 \<Longrightarrow> adds ty l opts B h1 h2 \<Longrightarrow> adds ty l opts (A \<union> B) h h2"
  by (auto simp: adds_def)

lemma removes_refl: "removes ty l opts {} h h"
  by (simp add: removes_def)

lemma removes_trans:
  "removes ty l opts A h h1 \<Longrightarrow> removes ty l opts B h1 h2 \<Longrightarrow> removes ty l opts (A \<union> B) h h2"
  by (auto simp: removes_def)

lemma attach_frames_char:
  assumes "\<And>f h. f \<in> set fs \<Longrightarrow>
             fst (addGlobalEventListener ty l opts f h) = Inr (built ty l opts f) \<and>
             adds ty l opts (covered_ids f) h (snd (addGlobalEventListener ty l opts f h))"
  shows "fst (attach_frames ty l opts fs children h) = (None, children @ map (built ty l opts) fs) \<and>
         adds ty l opts (\<Union>f \<in> set fs. covered_ids f) h (snd (attach_frames ty l opts fs children h))"
  using assms
proof (induction fs arbitrary: children h)
  case Nil
  then show ?case by (simp add: adds_refl)
next
  case (Cons f fs)
  obtain h1 where a: "addGlobalEventListener ty l opts f h = (Inr (built ty l opts f), h1)"
    and a1: "adds ty l opts (covered_ids f) h h1"
    using Cons.prems [of f h] by (cases "addGlobalEventListener ty l opts f h") auto
  have ih: "fst (attach_frames ty l opts fs (children @ [built ty l opts f]) h1) =
              (None, (children @ [built ty l opts f]) @ map (built ty l opts) fs) \<and>
            adds ty l opts (\<Union>f \<in> set fs. covered_ids f) h1
              (snd (attach_frames ty l opts fs (children @ [built ty l opts f]) h1))"
    by (rule Cons.IH) (simp add: Cons.prems)
  show ?case using a ih adds_trans [OF a1 conjunct2 [OF ih]] by simp
qed

lemma addGlobalEventListener_char:
  "fst (addGlobalEventListener ty l opts w h) = Inr (built ty l opts w) \<and>
   adds ty l opts (covered_ids w) h (snd (addGlobalEventListener ty l opts w h))"
proof (induction w arbitrary: h)
  case (Window i den fden fs)
  let ?w = "Window i den fden fs"
  let ?h1 = "addEventListener
              \<lparr>l_target = i, l_type = ty, l_callback = l,
               l_capture = capture_of opts, l_once = once_of opts\<rparr> h"
  have a1: "adds ty l opts {i} h ?h1"
    by (auto simp: adds_def registered_add)
  show ?case
  proof (cases "den \<or> fden")
    case True
    then show ?thesis
      using a1
      by (auto simp: window_addEventListener_def covered_ids_Window adds_refl)
  next
    case False
    have at: "fst (attach_frames ty l opts fs [] ?h1) = (None, [] @ map (built ty l opts) fs) \<and>
              adds ty l opts (\<Union>f \<in> set fs. covered_ids f) ?h1 (snd (attach_frames ty l opts fs [] ?h1))"
      by (rule attach_frames_char) (simp add: Window.IH)
    from adds_trans [OF a1 conjunct2 [OF at]] at False show ?thesis
      by (cases "attach_frames ty l opts fs [] ?h1")
         (simp add: window_addEventListener_def covered_ids_Window)
  qed
qed

lemma run_removers_char:
  assumes "\<And>f h. f \<in> set fs \<Longrightarrow>
             fst (run_remover (built ty l opts f) h) = Inr () \<and>
             removes ty l opts (covered_ids f) h (snd (run_remover (built ty l opts f) h))"
  shows "fst (run_removers (map (built ty l opts) fs) h) = Inr () \<and>
         removes ty l opts (\<Union>f \<in> set fs. covered_ids f) h
           (snd (run_removers (map (built ty l opts) fs) h))"
  using assms
proof (induction fs arbitrary: h)
  case Nil
  then show ?case by (simp add: removes_refl)
next
  case (Cons f fs)
  obtain h1 where a: "run_remover (built ty l opts f) h = (Inr (), h1)"
    and a1: "removes ty l opts (covered_ids f) h h1"
    using Cons.prems [of f h] by (cases "run_remover (built ty l opts f) h") auto
  have ih: "fst (run_removers (map (built ty l opts) fs) h1) = Inr () \<and>
            removes ty l opts (\<Union>f \<in> set fs. covered_ids f) h1
              (snd (run_removers (map (built ty l opts) fs) h1))"
    by (rule Cons.IH) (simp add: Cons.prems)
  show ?case using a ih removes_trans [OF a1 conjunct2 [OF ih]] by simp
qed

lemma run_remover_char:
  "fst (run_remover (built ty l opts w) h) = Inr () \<and>
   removes ty l opts (covered_ids w) h (snd (run_remover (built ty l opts w) h))"
proof (induction w arbitrary: h)
  case (Window i den fden fs)
  let ?h1 = "removeEventListener i ty l (capture_of opts) h"
  have r1: "removes ty l opts {i} h ?h1"
    by (auto simp: removes_def registered_remove)
  show ?case
  proof (cases den)
    case True
    then show ?thesis
      by (simp add: window_removeEventListener_def covered_ids_Window removes_refl)
  next
    case den: False
    show ?thesis
    proof (cases fden)
      case True
      then show ?thesis
        using den r1 by (simp add: window_removeEventListener_def covered_ids_Window)
    next
      case False
      have rs: "fst (run_removers (map (built ty l opts) fs) ?h1) = Inr () \<and>
                removes ty l opts (\<Union>f \<in> set fs. covered_ids f) ?h1
                  (snd (run_removers (map (built ty l opts) fs) ?h1))"
        by (rule run_removers_char) (simp add: Window.IH)
      from removes_trans [OF r1 conjunct2 [OF rs]] rs den False show ?thesis
        by (simp add: window_removeEventListener_def covered_ids_Window)
    qed
  qed
qed

subsection \<open>The focus helpers\<close>

lemma map_of_set_member: "map_of (set_member key v ps) = (map_of ps)(key \<mapsto> v)"
  by (induction ps) (auto simp: fun_eq_iff)

lemma spread_bubbles_bubbles:
  "e_bubbles (new_event interface ty (Some (spread_bubbles eventInit)))"
  by (simp add: e_bubbles_def new_event_def spread_bubbles_def map_of_set_member)

lemma spread_bubbles_others:
  "key \<noteq> ''bubbles'' \<Longrightarrow>
   map_of (spread_bubbles eventInit) key = map_of (case eventInit of None \<Rightarrow> [] | Some d \<Rightarrow> d) key"
  by (simp add: spread_bubbles_def map_of_set_member)

text \<open>
  Whatever \<^verbatim>\<open>dispatchEvent\<close> does: the helpers dispatch two events on the element and
  no more, the primary event made from \<^verbatim>\<open>eventInit\<close> and then its companion, which
  bubbles whatever \<^verbatim>\<open>eventInit\<close> says, and return what the first dispatch answered.
\<close>

lemma fire_focus_events_traced:
  "fireBlurEvent (traced dispatch) element eventInit (log, h) =
     (fst (dispatch element (new_event ''FocusEvent'' ''blur'' eventInit) h),
      log @ [(element, new_event ''FocusEvent'' ''blur'' eventInit),
             (element, new_event ''FocusEvent'' ''focusout'' (Some (spread_bubbles eventInit)))],
      snd (dispatch element (new_event ''FocusEvent'' ''focusout'' (Some (spread_bubbles eventInit)))
             (snd (dispatch element (new_event ''FocusEvent'' ''blur'' eventInit) h)))) \<and>
   fireFocusEvent (traced dispatch) element eventInit (log, h) =
     (fst (dispatch element (new_event ''FocusEvent'' ''focus'' eventInit) h),
      log @ [(element, new_event ''FocusEvent'' ''focus'' eventInit),
             (element, new_event ''FocusEvent'' ''focusin'' (Some (spread_bubbles eventInit)))],
      snd (dispatch element (new_event ''FocusEvent'' ''focusin'' (Some (spread_bubbles eventInit)))
             (snd (dispatch element (new_event ''FocusEvent'' ''focus'' eventInit) h))))"
  by (simp add: fireBlurEvent_def fireFocusEvent_def traced_def Let_def split: prod.splits)

lemma e_cancelable_new_event:
  "e_cancelable (new_event interface ty eventInit) \<longleftrightarrow>
     (case eventInit of
        None \<Rightarrow> False
      | Some d \<Rightarrow> (case map_of d ''cancelable'' of None \<Rightarrow> False | Some v \<Rightarrow> truthy v))"
  by (simp add: e_cancelable_def new_event_def split: option.splits)

text \<open>
  C8, as the code and the browser have it. \<^verbatim>\<open>fireBlurEvent\<close> dispatches two events on
  the element and no more, in this order: a \<^verbatim>\<open>blur\<close> focus event made from
  \<^verbatim>\<open>eventInit\<close>, then a \<^verbatim>\<open>focusout\<close> focus event whose \<^verbatim>\<open>bubbles\<close> is true whatever
  \<^verbatim>\<open>eventInit\<close> says. It returns the answer of the dispatch of the \<^verbatim>\<open>blur\<close> event:
  false if and only if that event is cancelable, which it is when \<^verbatim>\<open>eventInit\<close> has a
  truthy \<^verbatim>\<open>cancelable\<close>, and a listener that is not passive called
  \<^verbatim>\<open>preventDefault\<close> on it. \<^verbatim>\<open>fireFocusEvent\<close> does the same with \<^verbatim>\<open>focus\<close> and
  \<^verbatim>\<open>focusin\<close>.
\<close>

theorem fireBlurEvent_two_events:
  "fireBlurEvent (traced (dom_dispatch reached effect)) element eventInit (log, s) =
     (\<not> ((case eventInit of
             None \<Rightarrow> False
           | Some d \<Rightarrow> (case map_of d ''cancelable'' of None \<Rightarrow> False | Some v \<Rightarrow> truthy v)) \<and>
          list_ex (\<lambda>l. calls_preventDefault l \<and> \<not> is_passive l)
            (reached element (new_event ''FocusEvent'' ''blur'' eventInit) s)),
      log @ [(element, new_event ''FocusEvent'' ''blur'' eventInit),
             (element, new_event ''FocusEvent'' ''focusout'' (Some (spread_bubbles eventInit)))],
      effect element (new_event ''FocusEvent'' ''focusout'' (Some (spread_bubbles eventInit)))
        (effect element (new_event ''FocusEvent'' ''blur'' eventInit) s)) \<and>
   fireFocusEvent (traced (dom_dispatch reached effect)) element eventInit (log, s) =
     (\<not> ((case eventInit of
             None \<Rightarrow> False
           | Some d \<Rightarrow> (case map_of d ''cancelable'' of None \<Rightarrow> False | Some v \<Rightarrow> truthy v)) \<and>
          list_ex (\<lambda>l. calls_preventDefault l \<and> \<not> is_passive l)
            (reached element (new_event ''FocusEvent'' ''focus'' eventInit) s)),
      log @ [(element, new_event ''FocusEvent'' ''focus'' eventInit),
             (element, new_event ''FocusEvent'' ''focusin'' (Some (spread_bubbles eventInit)))],
      effect element (new_event ''FocusEvent'' ''focusin'' (Some (spread_bubbles eventInit)))
        (effect element (new_event ''FocusEvent'' ''focus'' eventInit) s)) \<and>
   e_bubbles (new_event ''FocusEvent'' ''focusout'' (Some (spread_bubbles eventInit))) \<and>
   e_bubbles (new_event ''FocusEvent'' ''focusin'' (Some (spread_bubbles eventInit)))"
  using fire_focus_events_traced [of "dom_dispatch reached effect" element eventInit log s]
  by (simp add: dom_dispatch_def canceled_def e_cancelable_new_event spread_bubbles_bubbles)

text \<open>
  On the page where a listener calls \<^verbatim>\<open>preventDefault\<close> on every \<^verbatim>\<open>blur\<close> event: a
  cancelable \<^verbatim>\<open>blur\<close> is answered with false, the default one with true, and a
  \<^verbatim>\<open>focus\<close> that no listener prevents with true.
\<close>

theorem fireBlurEvent_two_events_witness:
  "fireBlurEvent (traced (dom_dispatch blur_preventer count_dispatch)) 4
       (Some [(''cancelable'', JBool True)]) ([], 0) =
     (False,
      [(4, \<lparr>e_interface = ''FocusEvent'', e_type = ''blur'',
             e_init = [(''cancelable'', JBool True)]\<rparr>),
       (4, \<lparr>e_interface = ''FocusEvent'', e_type = ''focusout'',
             e_init = [(''cancelable'', JBool True), (''bubbles'', JBool True)]\<rparr>)],
      2) \<and>
   fireBlurEvent (traced (dom_dispatch blur_preventer count_dispatch)) 4 None ([], 0) =
     (True,
      [(4, \<lparr>e_interface = ''FocusEvent'', e_type = ''blur'', e_init = []\<rparr>),
       (4, \<lparr>e_interface = ''FocusEvent'', e_type = ''focusout'', e_init = [(''bubbles'', JBool True)]\<rparr>)],
      2) \<and>
   \<not> e_bubbles \<lparr>e_interface = ''FocusEvent'', e_type = ''blur'', e_init = []\<rparr> \<and>
   fireFocusEvent (traced (dom_dispatch blur_preventer count_dispatch)) 4
       (Some [(''bubbles'', JBool False), (''cancelable'', JBool True)]) ([], 0) =
     (True,
      [(4, \<lparr>e_interface = ''FocusEvent'', e_type = ''focus'',
             e_init = [(''bubbles'', JBool False), (''cancelable'', JBool True)]\<rparr>),
       (4, \<lparr>e_interface = ''FocusEvent'', e_type = ''focusin'',
             e_init = [(''bubbles'', JBool True), (''cancelable'', JBool True)]\<rparr>)],
      2)"
  using fireBlurEvent_two_events [of blur_preventer count_dispatch 4
      "Some [(''cancelable'', JBool True)]" "[]" 0]
    fireBlurEvent_two_events [of blur_preventer count_dispatch 4 None "[]" 0]
    fireBlurEvent_two_events [of blur_preventer count_dispatch 4
      "Some [(''bubbles'', JBool False), (''cancelable'', JBool True)]" "[]" 0]
  by (simp add: new_event_def spread_bubbles_def e_bubbles_def blur_preventer_def count_dispatch_def)

text \<open>
  C8, as the claim has it, fails: \<^verbatim>\<open>fireBlurEvent(element)\<close> makes a \<^verbatim>\<open>blur\<close> event
  that is not cancelable, so on the page where a listener calls \<^verbatim>\<open>preventDefault\<close> on
  it the call is without effect and the helper returns true.
\<close>

theorem fireBlurEvent_two_events_counterexample:
  "list_ex calls_preventDefault (blur_preventer 4 (new_event ''FocusEvent'' ''blur'' None) 0) \<and>
   fst (fireBlurEvent (dom_dispatch blur_preventer count_dispatch) 4 None 0) = True"
  by (simp add: fireBlurEvent_def dom_dispatch_def canceled_def e_cancelable_def new_event_def
      blur_preventer_def count_dispatch_def spread_bubbles_def)

subsection \<open>\<^verbatim>\<open>addGlobalEventListener\<close> and its remover\<close>

text \<open>
  C4. A call never throws, whatever windows of the tree throw. After it the listener is
  registered, next to what was registered before, on exactly the windows that are
  reached from the scope through windows that do not throw: a throwing frame takes
  away itself and the frames below it, and neither the scope, nor its siblings, nor
  what lies below them.
\<close>

theorem addGlobalEventListener_isolated:
  "(\<exists>remove. fst (addGlobalEventListener ty listener options scope h) = Inr remove) \<and>
   (registered (snd (addGlobalEventListener ty listener options scope h)) t ty' l' c' \<longleftrightarrow>
      registered h t ty' l' c' \<or>
      ty' = ty \<and> l' = listener \<and> c' = capture_of options \<and> (\<exists>v. covered scope v \<and> w_id v = t))"
  using addGlobalEventListener_char [of ty listener options scope h]
  by (auto simp: adds_def covered_ids_def)

lemmas window_eval =
  window_addEventListener_def window_removeEventListener_def
  addEventListener_def removeEventListener_def registered_def listens_def idle_host_def

text \<open>A window with an accessible frame and a throwing frame that has a frame of its own.\<close>

theorem addGlobalEventListener_isolated_witness:
  "fst (addGlobalEventListener ''click'' (Callback 3) NoOptions
          (Window 0 False False [Window 1 True False [Window 3 False False []], Window 2 False False []])
          idle_host) =
     Inr (Remover
            (Window 0 False False [Window 1 True False [Window 3 False False []], Window 2 False False []])
            ''click'' (Callback 3) NoOptions
            [Remover (Window 1 True False [Window 3 False False []]) ''click'' (Callback 3) NoOptions [],
             Remover (Window 2 False False []) ''click'' (Callback 3) NoOptions []]) \<and>
   listeners (snd (addGlobalEventListener ''click'' (Callback 3) NoOptions
          (Window 0 False False [Window 1 True False [Window 3 False False []], Window 2 False False []])
          idle_host)) =
     [\<lparr>l_target = 0, l_type = ''click'', l_callback = Callback 3, l_capture = False, l_once = False\<rparr>,
      \<lparr>l_target = 2, l_type = ''click'', l_callback = Callback 3, l_capture = False, l_once = False\<rparr>]"
  using addGlobalEventListener_isolated [of "''click''" "Callback 3" NoOptions
      "Window 0 False False [Window 1 True False [Window 3 False False []], Window 2 False False []]"
      idle_host 2 "''click''" "Callback 3" False]
  by (simp add: window_eval)

text \<open>
  C5. Calling the function that a call returned never throws, and it takes the listener
  off exactly the windows the call had reached, the scope and every frame on which the
  registration had succeeded; every other registration stays.
\<close>

theorem removeEventListener_detaches:
  assumes "addGlobalEventListener ty listener options scope h = (Inr remove, h1)"
  shows "fst (run_remover remove h1) = Inr () \<and>
         (registered (snd (run_remover remove h1)) t ty' l' c' \<longleftrightarrow>
            registered h1 t ty' l' c' \<and>
            \<not> (ty' = ty \<and> l' = listener \<and> c' = capture_of options \<and>
               (\<exists>v. covered scope v \<and> w_id v = t)))"
proof -
  from assms addGlobalEventListener_char [of ty listener options scope h]
  have "remove = built ty listener options scope" by simp
  then show ?thesis
    using run_remover_char [of ty listener options scope h1]
    by (auto simp: removes_def covered_ids_def)
qed

theorem removeEventListener_detaches_witness:
  "addGlobalEventListener ''click'' (Callback 3) NoOptions
     (Window 0 False False [Window 1 True False [Window 3 False False []], Window 2 False False []])
     idle_host =
   (Inr (Remover
            (Window 0 False False [Window 1 True False [Window 3 False False []], Window 2 False False []])
            ''click'' (Callback 3) NoOptions
            [Remover (Window 1 True False [Window 3 False False []]) ''click'' (Callback 3) NoOptions [],
             Remover (Window 2 False False []) ''click'' (Callback 3) NoOptions []]),
    idle_host
      \<lparr>listeners :=
         [\<lparr>l_target = 0, l_type = ''click'', l_callback = Callback 3, l_capture = False, l_once = False\<rparr>,
          \<lparr>l_target = 2, l_type = ''click'', l_callback = Callback 3, l_capture = False, l_once = False\<rparr>]\<rparr>) \<and>
   run_remover
     (Remover
        (Window 0 False False [Window 1 True False [Window 3 False False []], Window 2 False False []])
        ''click'' (Callback 3) NoOptions
        [Remover (Window 1 True False [Window 3 False False []]) ''click'' (Callback 3) NoOptions [],
         Remover (Window 2 False False []) ''click'' (Callback 3) NoOptions []])
     (idle_host
        \<lparr>listeners :=
           [\<lparr>l_target = 0, l_type = ''click'', l_callback = Callback 3, l_capture = False, l_once = False\<rparr>,
            \<lparr>l_target = 2, l_type = ''click'', l_callback = Callback 3, l_capture = False, l_once = False\<rparr>]\<rparr>) =
   (Inr (), idle_host)"
proof -
  have q: "addGlobalEventListener ''click'' (Callback 3) NoOptions
     (Window 0 False False [Window 1 True False [Window 3 False False []], Window 2 False False []])
     idle_host =
   (Inr (Remover
            (Window 0 False False [Window 1 True False [Window 3 False False []], Window 2 False False []])
            ''click'' (Callback 3) NoOptions
            [Remover (Window 1 True False [Window 3 False False []]) ''click'' (Callback 3) NoOptions [],
             Remover (Window 2 False False []) ''click'' (Callback 3) NoOptions []]),
    idle_host
      \<lparr>listeners :=
         [\<lparr>l_target = 0, l_type = ''click'', l_callback = Callback 3, l_capture = False, l_once = False\<rparr>,
          \<lparr>l_target = 2, l_type = ''click'', l_callback = Callback 3, l_capture = False, l_once = False\<rparr>]\<rparr>)"
    by (simp add: window_eval)
  show ?thesis
    using q removeEventListener_detaches [OF q, of 2 "''click''" "Callback 3" False]
    by (simp add: window_eval)
qed

end
